theory Spec2Isabelle
  imports Main "HOL-Library.Word"
begin

section \<open>Data model\<close>

text \<open>
  The module \<open>taf\<close> (index.js) follows a growing text file: it reads the last \<open>n\<close> lines
  when the session is constructed and, on every growth notification, the lines added since
  the last scan. Everything it does with the file goes through the four primitives
  \<open>fs.stat\<close>, \<open>fs.open\<close>, \<open>fs.read\<close> and \<open>fs.close\<close> of a replaceable \<open>fs\<close> object
  (\<open>exports.fs\<close>), and through \<open>fs.watch\<close>.

  Bytes are 8-bit words. A JavaScript string is the list of its UTF-16 code units.
\<close>

type_synonym byte = "8 word"
type_synonym jsstring = "nat list"
type_synonym path = string

datatype error = ENOENT | EINVAL | EIO | TypeError | AssertionError

text \<open>
  \<open>fs.read(fd, buf, 0, 1, position, cb)\<close> on an open descriptor: an error, no byte (a read
  at or past the end of the file leaves the buffer as it was), or one byte.
\<close>

type_synonym reader = "int \<Rightarrow> error + byte option"

record fs =
  fs_stat :: "path \<Rightarrow> error + nat"
  fs_open :: "path \<Rightarrow> error + reader"

text \<open>The calls a scan makes on the file system, in the order it makes them.\<close>

datatype io_call = Open_call path | Read_call int | Close_call

text \<open>
  A file as its bytes. Position \<open>-1\<close> asks \<open>fs.read\<close> for the descriptor's current file
  position, which is 0 on a descriptor that has only seen positional reads; a position
  below \<open>-1\<close> is refused.
\<close>

definition file_read :: "byte list \<Rightarrow> reader" where
  "file_read bs p =
     (if p < - 1 then Inl EINVAL
      else let i = (if p = - 1 then 0 else nat p)
           in if i < length bs then Inr (Some (bs ! i)) else Inr None)"

definition disk :: "(path \<rightharpoonup> byte list) \<Rightarrow> fs" where
  "disk files =
     \<lparr> fs_stat = (\<lambda>p. case files p of None \<Rightarrow> Inl ENOENT | Some bs \<Rightarrow> Inr (length bs)),
       fs_open = (\<lambda>p. case files p of None \<Rightarrow> Inl ENOENT | Some bs \<Rightarrow> Inr (file_read bs)) \<rparr>"

section \<open>The reverse line scan: \<open>readLastLines\<close>\<close>

text \<open>
  \<open>buf + cur\<close> converts the one-byte buffer with \<open>Buffer.toString()\<close>: an ASCII byte is
  its character, any other single byte decodes to U+FFFD.
\<close>

definition toString :: "byte \<Rightarrow> jsstring" where
  "toString b = (if b < 128 then [unat b] else [65533])"

record scan_state =
  pos :: int
  ctr :: nat
  cur :: jsstring
  res :: "jsstring list"
  buf :: byte

text \<open>
  The body of the read callback between the error check and the loop test
  (index.js, lines 185 to 195). \<open>res.unshift(cur)\<close> returns the new length of \<open>res\<close>.
\<close>

definition classify :: "scan_state \<Rightarrow> scan_state" where
  "classify st =
     (if buf st = 10
      then (if ctr st \<noteq> 0
            then st\<lparr>ctr := Suc (length (res st)), res := cur st # res st, cur := []\<rparr>
            else st\<lparr>ctr := Suc (ctr st), cur := []\<rparr>)
      else st\<lparr>cur := toString (buf st) @ cur st\<rparr>)"

definition logged :: "io_call \<Rightarrow> io_call list \<times> 'a \<Rightarrow> io_call list \<times> 'a" where
  "logged c r = (c # fst r, snd r)"

text \<open>
  \<open>readChar\<close>: \<open>pos\<close> is decremented, the byte there is read, and only then is
  \<open>pos >= from && ctr < n\<close> tested. A read error calls back at once, without closing
  the descriptor; otherwise the descriptor is closed before the callback gets \<open>res\<close>.
\<close>

function readChar :: "reader \<Rightarrow> nat \<Rightarrow> int \<Rightarrow> scan_state \<Rightarrow> io_call list \<times> (error + jsstring list)" where
  "readChar rd from n st =
     (let p = pos st - 1 in
      case rd p of
        Inl e \<Rightarrow> ([Read_call p], Inl e)
      | Inr got \<Rightarrow>
          let st' = classify (st\<lparr>pos := p, buf := (case got of Some b \<Rightarrow> b | None \<Rightarrow> buf st)\<rparr>)
          in if int from \<le> p \<and> int (ctr st') < n
             then logged (Read_call p) (readChar rd from n st')
             else ([Read_call p, Close_call], Inr (res st')))"
  by pat_completeness auto

termination readChar
  by (relation "measure (\<lambda>(rd, from, n, st). nat (pos st + 1 - int from))")
    (auto simp: classify_def)

declare readChar.simps [simp del]

text \<open>
  \<open>readLastLines(path, from, pos, n, cb)\<close>; \<open>junk\<close> is what the freshly allocated
  \<open>new Buffer(1)\<close> happens to hold. The result is what \<open>cb\<close> is called with.
\<close>

definition readLastLines ::
    "fs \<Rightarrow> byte \<Rightarrow> path \<Rightarrow> nat \<Rightarrow> nat \<Rightarrow> int \<Rightarrow> io_call list \<times> (error + jsstring list)" where
  "readLastLines f junk path from pos0 n =
     (case fs_open f path of
        Inl e \<Rightarrow> ([Open_call path], Inl e)
      | Inr rd \<Rightarrow>
          logged (Open_call path)
            (readChar rd from n \<lparr>pos = int pos0, ctr = 0, cur = [], res = [], buf = junk\<rparr>))"

section \<open>The session: \<open>Taf\<close>\<close>

text \<open>What the session emits: \<open>emit('line', line)\<close> and \<open>emit('error', err)\<close>.\<close>

datatype event = Line jsstring | Error error

text \<open>
  The \<open>fs.FSWatcher\<close> created by \<open>setWatcher\<close>: \<open>w_path\<close> is the variable \<open>path\<close>
  that its listener closes over, \<open>w_open\<close> turns false when \<open>watcher.close()\<close> is called.
  An open watcher keeps delivering notifications for the file it was created on, also after
  a rename; a closed one delivers none.
\<close>

record watcher_state =
  w_path :: path
  w_open :: bool

text \<open>
  The asynchronous operations of a session that have been started and whose callback has not
  run yet: the constructor's \<open>process.nextTick\<close>, its \<open>fs.stat\<close>, the \<open>fs.stat\<close> of
  a change notification, and a call \<open>readLastLines(path, from, newSize, n, cb)\<close> made by
  \<open>processFileChange\<close>, with the arguments it was called with.
\<close>

datatype pending =
    Next_tick path
  | Init_stat path
  | Change_stat path
  | Scan path nat nat int

text \<open>
  The object: \<open>path\<close>, \<open>count\<close>, \<open>_size\<close> (the spec's \<open>lastOffset\<close>) and \<open>watcher\<close>
  (undefined until \<open>setWatcher\<close> has run); with it, the events emitted so far and the
  operations in flight.
\<close>

record taf =
  path :: path
  count :: int
  size' :: nat
  watcher :: "watcher_state option"
  emitted :: "event list"
  in_flight :: "pending list"

text \<open>
  The constructor called with a path and a number (or nothing) as \<open>n\<close>:
  \<open>assert(path)\<close> refuses the empty string, an undefined \<open>n\<close> is 10.
\<close>

definition Taf :: "path \<Rightarrow> int option \<Rightarrow> error + taf" where
  "Taf p n =
     (if p = [] then Inl AssertionError
      else Inr \<lparr> path = p, count = (case n of None \<Rightarrow> 10 | Some k \<Rightarrow> k), size' = 0,
                 watcher = None, emitted = [], in_flight = [Next_tick p] \<rparr>)"

definition emit :: "event \<Rightarrow> taf \<Rightarrow> taf" where
  "emit e t = t\<lparr>emitted := emitted t @ [e]\<rparr>"

text \<open>
  \<open>processFileChange(newSize)\<close> calls \<open>readLastLines\<close> with the session's path, size and
  count as they are at the call; \<open>processFileChange_cb\<close> is the callback it passes.
\<close>

definition processFileChange :: "nat \<Rightarrow> taf \<Rightarrow> taf" where
  "processFileChange newSize t =
     t\<lparr>in_flight := in_flight t @ [Scan (path t) (size' t) newSize (count t)]\<rparr>"

definition processFileChange_cb :: "nat \<Rightarrow> error + jsstring list \<Rightarrow> taf \<Rightarrow> taf" where
  "processFileChange_cb newSize r t =
     (case r of
        Inl err \<Rightarrow> emit (Error err) t
      | Inr lines \<Rightarrow> foldl (\<lambda>t' line. emit (Line line) t') (t\<lparr>size' := newSize\<rparr>) lines)"

definition setWatcher :: "taf \<Rightarrow> taf" where
  "setWatcher t = t\<lparr>watcher := Some \<lparr>w_path = path t, w_open = True\<rparr>\<rparr>"

text \<open>\<open>path.resolve\<close> and \<open>path.dirname\<close> of the platform's \<open>path\<close> module.\<close>

record path_module =
  resolve :: "string \<Rightarrow> string \<Rightarrow> string"
  dirname :: "string \<Rightarrow> string"

text \<open>
  The listener given to \<open>fs.watch\<close>, called with the event name and the file name (which
  may be missing; an empty string is falsy).
\<close>

definition listener :: "path_module \<Rightarrow> string \<Rightarrow> string option \<Rightarrow> watcher_state \<Rightarrow> taf \<Rightarrow> taf" where
  "listener pm ev filename w t =
     (if ev = ''change'' then t\<lparr>in_flight := in_flight t @ [Change_stat (w_path w)]\<rparr>
      else if ev = ''rename'' \<and> filename \<noteq> None \<and> filename \<noteq> Some []
      then (let p = resolve pm (dirname pm (w_path w)) (the filename)
            in t\<lparr>path := p, watcher := Some (w\<lparr>w_path := p\<rparr>)\<rparr>)
      else t)"

text \<open>\<open>close()\<close>: \<open>this.watcher.close()\<close> throws when there is no watcher yet.\<close>

definition close :: "taf \<Rightarrow> error + taf" where
  "close t =
     (case watcher t of
        None \<Rightarrow> Inl TypeError
      | Some w \<Rightarrow> Inr (t\<lparr>watcher := Some (w\<lparr>w_open := False\<rparr>)\<rparr>))"

text \<open>
  The callback of an operation in flight runs when the operation is done. \<open>f\<close> is the
  file system as the operation finds it and \<open>junk\<close> the content of a fresh buffer; all reads
  of one scan see the same \<open>f\<close>.
\<close>

fun complete :: "pending \<Rightarrow> fs \<Rightarrow> byte \<Rightarrow> taf \<Rightarrow> taf" where
  "complete (Next_tick p) f junk t = t\<lparr>in_flight := in_flight t @ [Init_stat p]\<rparr>"
| "complete (Init_stat p) f junk t =
     (case fs_stat f p of
        Inl err \<Rightarrow> emit (Error err) t
      | Inr sz \<Rightarrow> setWatcher (processFileChange sz t))"
| "complete (Change_stat p) f junk t =
     (case fs_stat f p of
        Inl err \<Rightarrow> emit (Error err) t
      | Inr sz \<Rightarrow> if sz > size' t then processFileChange sz t else t)"
| "complete (Scan p from newSize n) f junk t =
     processFileChange_cb newSize (snd (readLastLines f junk p from newSize n)) t"

text \<open>
  What can happen to a session: an operation in flight (the \<open>i\<close>-th) completes, the watcher
  calls the listener, or the user calls \<open>close()\<close>. Callbacks run to completion, one at a
  time; operations in flight may complete in any order.
\<close>

datatype action =
    Complete nat fs byte
  | Notify string "string option"
  | Close

definition step :: "path_module \<Rightarrow> action \<Rightarrow> taf \<Rightarrow> taf" where
  "step pm a t =
     (case a of
        Complete i f junk \<Rightarrow>
          (if i < length (in_flight t)
           then complete (in_flight t ! i) f junk
                  (t\<lparr>in_flight := take i (in_flight t) @ drop (Suc i) (in_flight t)\<rparr>)
           else t)
      | Notify ev filename \<Rightarrow>
          (case watcher t of
             None \<Rightarrow> t
           | Some w \<Rightarrow> if w_open w then listener pm ev filename w t else t)
      | Close \<Rightarrow> (case close t of Inl err \<Rightarrow> t | Inr t' \<Rightarrow> t'))"

definition run :: "path_module \<Rightarrow> action list \<Rightarrow> taf \<Rightarrow> taf" where
  "run pm acts t = foldl (\<lambda>t' a. step pm a t') t acts"

section \<open>Vocabulary of the statements\<close>

text \<open>
  \<open>decode\<close> is what the scan makes of a run of bytes, \<open>terminated\<close> the bytes of a list
  of lines each followed by a newline, \<open>preceded\<close> the same lines each with a newline in
  front. \<open>reads lo hi\<close> are the calls of \<open>fs.read\<close> at the offsets \<open>hi - 1\<close> down to
  \<open>lo\<close>. \<open>posix_lite\<close> is the \<open>path\<close> module of a POSIX platform, for a process whose
  working directory is the root: \<open>path.dirname\<close> cuts the path before the last separator
  that follows a name, and \<open>path.resolve\<close> joins its arguments from the right up to the
  first absolute one (or the working directory) and removes empty, \<open>.\<close> and \<open>..\<close>
  segments. \<open>fresh\<close> is the session
  the constructor returns, \<open>watching\<close> a session past its start with nothing in flight,
  \<open>one_file\<close> a file system holding one file and \<open>failing_at\<close> one whose reads fail at
  one offset. \<open>settled\<close> says that every scan in flight leads to a size not below
  \<open>lastOffset\<close> (and that a session still starting has done nothing else), \<open>serial\<close> that
  at most one scan is in flight, \<open>shut\<close> that the watcher is closed on a session past its
  start.
\<close>


definition decode :: "byte list \<Rightarrow> jsstring" where
  "decode w = concat (map toString w)"

definition logs :: "io_call list \<Rightarrow> io_call list \<times> 'a \<Rightarrow> io_call list \<times> 'a" where
  "logs l r = (l @ fst r, snd r)"

definition reads :: "nat \<Rightarrow> nat \<Rightarrow> io_call list" where
  "reads lo hi = map (\<lambda>i. Read_call (int i)) (rev [lo..<hi])"

definition terminated :: "byte list list \<Rightarrow> byte list" where
  "terminated ls = concat (map (\<lambda>l. l @ [10]) ls)"

definition preceded :: "byte list list \<Rightarrow> byte list" where
  "preceded ls = concat (map ((#) 10) ls)"

fun dir_rest :: "string \<Rightarrow> bool \<Rightarrow> string option" where
  "dir_rest [] matchedSlash = None"
| "dir_rest (c # cs) matchedSlash =
     (if c = CHR ''/''
      then (if \<not> matchedSlash then Some cs else dir_rest cs matchedSlash)
      else dir_rest cs False)"

definition posix_dirname :: "string \<Rightarrow> string" where
  "posix_dirname p =
     (case p of
        [] \<Rightarrow> ''.''
      | c # cs \<Rightarrow>
          (case dir_rest (rev cs) True of
             None \<Rightarrow> if c = CHR ''/'' then ''/'' else ''.''
           | Some rest \<Rightarrow> if c = CHR ''/'' \<and> rest = [] then ''//'' else c # rev rest))"

fun split_slash :: "string \<Rightarrow> string list" where
  "split_slash [] = [[]]"
| "split_slash (c # cs) =
     (if c = CHR ''/'' then [] # split_slash cs
      else (case split_slash cs of [] \<Rightarrow> [[c]] | s # ss \<Rightarrow> (c # s) # ss))"

fun join_slash :: "string list \<Rightarrow> string" where
  "join_slash [] = []"
| "join_slash (s # ss) = CHR ''/'' # s @ join_slash ss"

definition normalize_segments :: "string list \<Rightarrow> string list" where
  "normalize_segments segs =
     foldl (\<lambda>stack seg.
              if seg = [] \<or> seg = ''.'' then stack
              else if seg = ''..'' then butlast stack
              else stack @ [seg]) [] segs"

definition posix_resolve :: "string \<Rightarrow> string \<Rightarrow> string \<Rightarrow> string" where
  "posix_resolve cwd dir name =
     (let chosen = (if take 1 name = ''/'' then name
                    else if take 1 dir = ''/'' then dir @ ''/'' @ name
                    else cwd @ ''/'' @ dir @ ''/'' @ name);
          segs = normalize_segments (split_slash chosen)
      in if segs = [] then ''/'' else join_slash segs)"

definition posix_lite :: path_module where
  "posix_lite = \<lparr> resolve = posix_resolve ''/'', dirname = posix_dirname \<rparr>"

definition watching :: "path \<Rightarrow> int \<Rightarrow> nat \<Rightarrow> taf" where
  "watching p n sz =
     \<lparr> path = p, count = n, size' = sz, watcher = Some \<lparr>w_path = p, w_open = True\<rparr>,
       emitted = [], in_flight = [] \<rparr>"

definition one_file :: "path \<Rightarrow> byte list \<Rightarrow> fs" where
  "one_file p bs = disk [p \<mapsto> bs]"


definition fresh :: "path \<Rightarrow> int \<Rightarrow> taf" where
  "fresh p n =
     \<lparr> path = p, count = n, size' = 0, watcher = None, emitted = [], in_flight = [Next_tick p] \<rparr>"

definition failing_at :: "int \<Rightarrow> byte list \<Rightarrow> fs" where
  "failing_at k bs =
     \<lparr> fs_stat = (\<lambda>p. Inr (length bs)),
       fs_open = (\<lambda>p. Inr (\<lambda>i. if i = k then Inl EIO else file_read bs i)) \<rparr>"

fun starting :: "pending \<Rightarrow> bool" where
  "starting (Next_tick p) = True"
| "starting (Init_stat p) = True"
| "starting (Change_stat p) = False"
| "starting (Scan p from newSize n) = False"

fun is_scan :: "pending \<Rightarrow> bool" where
  "is_scan (Scan p from newSize n) = True"
| "is_scan (Next_tick p) = False"
| "is_scan (Init_stat p) = False"
| "is_scan (Change_stat p) = False"

fun target_from :: "nat \<Rightarrow> pending \<Rightarrow> bool" where
  "target_from sz (Scan p from newSize n) = (sz \<le> newSize)"
| "target_from sz (Next_tick p) = True"
| "target_from sz (Init_stat p) = True"
| "target_from sz (Change_stat p) = True"

definition shut :: "taf \<Rightarrow> bool" where
  "shut t =
     ((case watcher t of None \<Rightarrow> False | Some w \<Rightarrow> \<not> w_open w) \<and>
      \<not> list_ex starting (in_flight t))"

definition settled :: "taf \<Rightarrow> bool" where
  "settled t =
     (list_all (target_from (size' t)) (in_flight t) \<and>
      (list_ex starting (in_flight t) \<longrightarrow>
         size' t = 0 \<and> length (in_flight t) = 1 \<and> watcher t = None))"

definition serial :: "taf \<Rightarrow> bool" where
  "serial t = (length (filter is_scan (in_flight t)) \<le> 1)"

fun serial_run :: "path_module \<Rightarrow> action list \<Rightarrow> taf \<Rightarrow> bool" where
  "serial_run pm [] t = serial t"
| "serial_run pm (a # as) t = (serial t \<and> serial_run pm as (step pm a t))"
section \<open>Properties of the scan\<close>

lemma logs_Nil [simp]: "logs [] r = r"
  by (simp add: logs_def)

lemma logs_logs [simp]: "logs l (logs m r) = logs (l @ m) r"
  by (simp add: logs_def)

lemma logged_logs: "logged c r = logs [c] r"
  by (simp add: logs_def logged_def)

lemma snd_logs [simp]: "snd (logs l r) = snd r"
  by (simp add: logs_def)

lemma fst_logs [simp]: "fst (logs l r) = l @ fst r"
  by (simp add: logs_def)

lemma reads_Suc: "lo \<le> hi \<Longrightarrow> reads lo (Suc hi) = Read_call (int hi) # reads lo hi"
  by (simp add: reads_def)

lemma reads_empty [simp]: "reads lo lo = []"
  by (simp add: reads_def)

lemma reads_append: "lo \<le> mid \<Longrightarrow> mid \<le> hi \<Longrightarrow> reads mid hi @ reads lo mid = reads lo hi"
  using upt_add_eq_append [of lo mid "hi - mid"] by (simp add: reads_def)

lemma reads_low: "lo < hi \<Longrightarrow> reads (Suc lo) hi @ [Read_call (int lo)] = reads lo hi"
  by (simp add: reads_def upt_conv_Cons)

lemma decode_simps [simp]: "decode [] = []" "decode (x # w) = toString x @ decode w"
  "decode (v @ w) = decode v @ decode w"
  by (simp_all add: decode_def)

lemma step_other:
  assumes "q < length bs" "bs ! q \<noteq> 10"
  shows "readChar (file_read bs) from n \<lparr>pos = int (Suc q), ctr = c, cur = u, res = rs, buf = b\<rparr> =
     (if from \<le> q \<and> int c < n
      then logs [Read_call (int q)] (readChar (file_read bs) from n
             \<lparr>pos = int q, ctr = c, cur = toString (bs ! q) @ u, res = rs, buf = bs ! q\<rparr>)
      else ([Read_call (int q), Close_call], Inr rs))"
  using assms by (subst readChar.simps) (auto simp add: file_read_def classify_def logged_logs Let_def)

lemma step_newline:
  assumes "q < length bs" "bs ! q = 10"
  shows "readChar (file_read bs) from n \<lparr>pos = int (Suc q), ctr = c, cur = u, res = rs, buf = b\<rparr> =
     (if from \<le> q \<and> int (if c = 0 then 1 else Suc (length rs)) < n
      then logs [Read_call (int q)] (readChar (file_read bs) from n
             \<lparr>pos = int q, ctr = (if c = 0 then 1 else Suc (length rs)), cur = [],
              res = (if c = 0 then rs else u # rs), buf = 10\<rparr>)
      else ([Read_call (int q), Close_call], Inr (if c = 0 then rs else u # rs)))"
  using assms by (subst readChar.simps) (auto simp add: file_read_def classify_def logged_logs Let_def)

lemma skip_run:
  assumes "10 \<notin> set w" "from \<le> length A" "int c < n"
  shows "readChar (file_read (A @ w @ C)) from n
           \<lparr>pos = int (length A + length w), ctr = c, cur = u, res = rs, buf = b\<rparr> =
         logs (reads (length A) (length A + length w))
           (readChar (file_read (A @ w @ C)) from n
              \<lparr>pos = int (length A), ctr = c, cur = decode w @ u, res = rs,
               buf = (if w = [] then b else hd w)\<rparr>)"
  using assms
proof (induction w arbitrary: C u b rule: rev_induct)
  case Nil
  then show ?case by simp
next
  case (snoc x w)
  let ?bs = "A @ (w @ [x]) @ C"
  let ?q = "length A + length w"
  have q: "?q < length ?bs" "?bs ! ?q = x" "x \<noteq> 10"
    using snoc.prems by (simp_all add: nth_append)
  have "readChar (file_read ?bs) from n
          \<lparr>pos = int (Suc ?q), ctr = c, cur = u, res = rs, buf = b\<rparr> =
        logs [Read_call (int ?q)] (readChar (file_read ?bs) from n
          \<lparr>pos = int ?q, ctr = c, cur = toString x @ u, res = rs, buf = x\<rparr>)"
    using step_other [of ?q ?bs "from" n c u rs b] q snoc.prems by simp
  also have "readChar (file_read ?bs) from n
          \<lparr>pos = int ?q, ctr = c, cur = toString x @ u, res = rs, buf = x\<rparr> =
        logs (reads (length A) ?q) (readChar (file_read ?bs) from n
          \<lparr>pos = int (length A), ctr = c, cur = decode w @ toString x @ u, res = rs,
           buf = (if w = [] then x else hd w)\<rparr>)"
    using snoc.IH [of "x # C" "toString x @ u" x] snoc.prems by simp
  finally show ?case
    by (simp add: reads_Suc)
qed

lemma logs_pair [simp]: "logs l (m, r) = (l @ m, r)"
  by (simp add: logs_def)

lemma boundary:
  assumes "10 \<notin> set l" "from \<le> Suc (length X)" "int c < n"
  shows "readChar (file_read (X @ 10 # l @ C)) from n
           \<lparr>pos = int (length X + 1 + length l), ctr = c, cur = u, res = rs, buf = b\<rparr> =
         logs (reads (length X) (length X + 1 + length l))
           (if from \<le> length X \<and> int (if c = 0 then 1 else Suc (length rs)) < n
            then readChar (file_read (X @ 10 # l @ C)) from n
                   \<lparr>pos = int (length X), ctr = (if c = 0 then 1 else Suc (length rs)), cur = [],
                    res = (if c = 0 then rs else (decode l @ u) # rs), buf = 10\<rparr>
            else ([Close_call], Inr (if c = 0 then rs else (decode l @ u) # rs)))"
proof -
  let ?bs = "X @ 10 # l @ C"
  have bs: "?bs = (X @ [10]) @ l @ C" by simp
  have q: "length X < length ?bs" "?bs ! length X = 10"
    by (simp_all add: nth_append)
  have "readChar (file_read ?bs) from n
           \<lparr>pos = int (length X + 1 + length l), ctr = c, cur = u, res = rs, buf = b\<rparr> =
        logs (reads (Suc (length X)) (length X + 1 + length l))
          (readChar (file_read ?bs) from n
             \<lparr>pos = int (Suc (length X)), ctr = c, cur = decode l @ u, res = rs,
              buf = (if l = [] then b else hd l)\<rparr>)"
    using skip_run [of l "from" "X @ [10]" c n C u rs b] assms by simp
  also have "readChar (file_read ?bs) from n
             \<lparr>pos = int (Suc (length X)), ctr = c, cur = decode l @ u, res = rs,
              buf = (if l = [] then b else hd l)\<rparr> =
         logs [Read_call (int (length X))]
           (if from \<le> length X \<and> int (if c = 0 then 1 else Suc (length rs)) < n
            then readChar (file_read ?bs) from n
                   \<lparr>pos = int (length X), ctr = (if c = 0 then 1 else Suc (length rs)), cur = [],
                    res = (if c = 0 then rs else (decode l @ u) # rs), buf = 10\<rparr>
            else ([Close_call], Inr (if c = 0 then rs else (decode l @ u) # rs)))"
    by (subst step_newline [OF q]) simp
  finally show ?thesis
    using reads_low [of "length X" "Suc (length X + length l)"] by simp
qed

lemma partial_stop:
  assumes "10 \<notin> set w" "w \<noteq> []" "from = Suc (length Z)" "int c < n"
  shows "readChar (file_read (Z @ w @ C)) from n
           \<lparr>pos = int (length Z + length w), ctr = c, cur = u, res = rs, buf = b\<rparr> =
         (reads (length Z) (length Z + length w) @ [Close_call], Inr rs)"
proof -
  obtain x w' where w: "w = x # w'" using assms(2) by (cases w) auto
  let ?bs = "Z @ w @ C"
  have q: "length Z < length ?bs" "?bs ! length Z \<noteq> 10"
    using assms(1) w by (simp_all add: nth_append)
  have "readChar (file_read ?bs) from n
           \<lparr>pos = int (length Z + length w), ctr = c, cur = u, res = rs, buf = b\<rparr> =
        logs (reads (Suc (length Z)) (length Z + length w))
          (readChar (file_read ?bs) from n
             \<lparr>pos = int (Suc (length Z)), ctr = c, cur = decode w' @ u, res = rs,
              buf = (if w' = [] then b else hd w')\<rparr>)"
    using skip_run [of w' "from" "Z @ [x]" c n C u rs b] assms w by simp
  also have "readChar (file_read ?bs) from n
             \<lparr>pos = int (Suc (length Z)), ctr = c, cur = decode w' @ u, res = rs,
              buf = (if w' = [] then b else hd w')\<rparr> =
         ([Read_call (int (length Z)), Close_call], Inr rs)"
    using assms(3) by (subst step_other [OF q]) simp
  finally show ?thesis
    using w reads_low [of "length Z" "Suc (length Z + length w')"] by simp
qed

lemma preceded_simps [simp]:
  "preceded [] = []" "preceded (l # ls) = 10 # l @ preceded ls"
  "preceded (ks @ ls) = preceded ks @ preceded ls"
  by (simp_all add: preceded_def)

lemma terminated_simps [simp]:
  "terminated [] = []" "terminated (l # ls) = l @ 10 # terminated ls"
  "terminated (ks @ ls) = terminated ks @ terminated ls"
  by (simp_all add: terminated_def)

lemma preceded_terminated: "10 # terminated ls @ R = preceded ls @ 10 # R"
  by (induction ls) simp_all

lemma length_terminated: "length (terminated ls) = length (preceded ls)"
  by (induction ls) simp_all

lemma lines_run:
  assumes "\<forall>l \<in> set ls. 10 \<notin> set l" "ls \<noteq> []" "1 \<le> c" "int c < n"
    "from \<le> Suc (length Y)" "int (length rs + length ls) \<le> n"
  shows "readChar (file_read (Y @ preceded ls @ C)) from n
           \<lparr>pos = int (length Y + length (preceded ls)), ctr = c, cur = [], res = rs, buf = b\<rparr> =
         logs (reads (length Y) (length Y + length (preceded ls)))
           (if from \<le> length Y \<and> int (length rs + length ls) < n
            then readChar (file_read (Y @ preceded ls @ C)) from n
                   \<lparr>pos = int (length Y), ctr = length rs + length ls, cur = [],
                    res = map decode ls @ rs, buf = 10\<rparr>
            else ([Close_call], Inr (map decode ls @ rs)))"
  using assms
proof (induction ls arbitrary: C rs c b rule: rev_induct)
  case Nil
  then show ?case by simp
next
  case (snoc l ls)
  let ?X = "Y @ preceded ls"
  let ?bs = "Y @ preceded (ls @ [l]) @ C"
  have bs: "?bs = ?X @ 10 # l @ C" by simp
  have c0: "c \<noteq> 0" using snoc.prems by simp
  have first: "readChar (file_read ?bs) from n
           \<lparr>pos = int (length Y + length (preceded (ls @ [l]))), ctr = c, cur = [], res = rs, buf = b\<rparr> =
         logs (reads (length ?X) (length ?X + 1 + length l))
           (if from \<le> length ?X \<and> int (Suc (length rs)) < n
            then readChar (file_read ?bs) from n
                   \<lparr>pos = int (length ?X), ctr = Suc (length rs), cur = [],
                    res = decode l # rs, buf = 10\<rparr>
            else ([Close_call], Inr (decode l # rs)))"
    using boundary [of l "from" ?X c n C "[]" rs b] snoc.prems c0 by (simp add: add_ac)
  show ?case
  proof (cases "ls = []")
    case True
    with first show ?thesis by simp
  next
    case False
    then have len: "Suc (length Y) \<le> length ?X"
      by (cases ls) simp_all
    have go: "from \<le> length ?X \<and> int (Suc (length rs)) < n"
      using snoc.prems len False by (cases ls) auto
    have rest: "readChar (file_read (Y @ preceded ls @ (10 # l @ C))) from n
           \<lparr>pos = int (length Y + length (preceded ls)), ctr = Suc (length rs), cur = [],
            res = decode l # rs, buf = 10\<rparr> =
         logs (reads (length Y) (length Y + length (preceded ls)))
           (if from \<le> length Y \<and> int (length (decode l # rs) + length ls) < n
            then readChar (file_read (Y @ preceded ls @ (10 # l @ C))) from n
                   \<lparr>pos = int (length Y), ctr = length (decode l # rs) + length ls, cur = [],
                    res = map decode ls @ decode l # rs, buf = 10\<rparr>
            else ([Close_call], Inr (map decode ls @ decode l # rs)))"
      using snoc.IH [of "Suc (length rs)" "decode l # rs" "10 # l @ C" 10] snoc.prems False go
      by simp
    have app: "reads (length ?X) (length ?X + 1 + length l) @ reads (length Y) (length ?X) =
        reads (length Y) (length Y + length (preceded (ls @ [l])))"
      using reads_append [of "length Y" "length ?X" "length ?X + 1 + length l"]
      by (simp add: add_ac)
    show ?thesis
      using first go rest app by (simp add: add_ac)
  qed
qed

lemma scan_appended:
  assumes "\<forall>l \<in> set ls. 10 \<notin> set l" "ls \<noteq> []" "2 \<le> n" "int (length ls) \<le> n"
  shows "readChar (file_read (P0 @ 10 # terminated ls @ R)) (Suc (length P0)) n
           \<lparr>pos = int (Suc (length P0) + length (terminated ls)), ctr = 0, cur = [], res = [], buf = b\<rparr> =
         (reads (length P0) (Suc (length P0) + length (terminated ls)) @ [Close_call],
          Inr (map decode ls))"
proof -
  let ?X = "P0 @ preceded ls"
  let ?bs = "P0 @ 10 # terminated ls @ R"
  have bs: "?bs = P0 @ preceded ls @ 10 # R"
    by (simp add: preceded_terminated)
  note len = length_terminated [of ls]
  have pl: "Suc 0 \<le> length (preceded ls)"
    using assms(2) by (cases ls) simp_all
  have "readChar (file_read (?X @ 10 # [] @ R)) (Suc (length P0)) n
           \<lparr>pos = int (length ?X + 1 + length ([]::byte list)), ctr = 0, cur = [], res = [], buf = b\<rparr> =
        logs (reads (length ?X) (length ?X + 1 + length ([]::byte list)))
          (readChar (file_read (?X @ 10 # [] @ R)) (Suc (length P0)) n
             \<lparr>pos = int (length ?X), ctr = 1, cur = [], res = [], buf = 10\<rparr>)"
    using boundary [of "[]" "Suc (length P0)" ?X 0 n R "[]" "[]" b] assms pl by simp
  moreover have "readChar (file_read (P0 @ preceded ls @ 10 # R)) (Suc (length P0)) n
             \<lparr>pos = int (length P0 + length (preceded ls)), ctr = 1, cur = [], res = [], buf = 10\<rparr> =
        logs (reads (length P0) (length P0 + length (preceded ls)))
          ([Close_call], Inr (map decode ls @ []))"
    using lines_run [of ls 1 n "Suc (length P0)" P0 "[]" "10 # R" 10] assms by simp
  ultimately show ?thesis
    using reads_append [of "length P0" "length ?X" "Suc (length ?X)"]
    by (simp add: add_ac preceded_terminated length_terminated)
qed


lemma readChar_error:
  "rd (pos st - 1) = Inl e \<Longrightarrow> readChar rd from n st = ([Read_call (pos st - 1)], Inl e)"
  by (subst readChar.simps) simp

lemma readChar_continue:
  assumes "rd (pos st - 1) = Inr got"
    and "st' = classify (st\<lparr>pos := pos st - 1, buf := (case got of Some b \<Rightarrow> b | None \<Rightarrow> buf st)\<rparr>)"
    and "int from \<le> pos st - 1" "int (ctr st') < n"
  shows "readChar rd from n st = logged (Read_call (pos st - 1)) (readChar rd from n st')"
  using assms by (subst readChar.simps) (simp add: Let_def)

lemma readChar_stop:
  assumes "rd (pos st - 1) = Inr got"
    and "st' = classify (st\<lparr>pos := pos st - 1, buf := (case got of Some b \<Rightarrow> b | None \<Rightarrow> buf st)\<rparr>)"
    and "\<not> (int from \<le> pos st - 1 \<and> int (ctr st') < n)"
  shows "readChar rd from n st = ([Read_call (pos st - 1), Close_call], Inr (res st'))"
  using assms by (subst readChar.simps) (auto simp add: Let_def)

lemma readChar_cong:
  "(\<And>p. p < pos st \<Longrightarrow> rd1 p = rd2 p) \<Longrightarrow> readChar rd1 from n st = readChar rd2 from n st"
proof (induction rd1 "from" n st rule: readChar.induct)
  case (1 rd "from" n st)
  have eq: "rd (pos st - 1) = rd2 (pos st - 1)"
    using "1.prems" by simp
  show ?case
  proof (cases "rd2 (pos st - 1)")
    case (Inl e)
    with eq show ?thesis
      by (simp add: readChar_error)
  next
    case (Inr got)
    define st' where "st' = classify (st\<lparr>pos := pos st - 1, buf := (case got of Some b \<Rightarrow> b | None \<Rightarrow> buf st)\<rparr>)"
    have got: "rd (pos st - 1) = Inr got" using eq Inr by simp
    show ?thesis
    proof (cases "int from \<le> pos st - 1 \<and> int (ctr st') < n")
      case True
      have ps: "pos st' = pos st - 1" by (simp add: st'_def classify_def)
      have "readChar rd from n st' = readChar rd2 from n st'"
        using "1.IH" [OF refl got st'_def] True "1.prems" ps by simp
      then show ?thesis
        using readChar_continue [of rd st got st' "from" n] readChar_continue [of rd2 st got st' "from" n]
          got Inr st'_def True by simp
    next
      case False
      then show ?thesis
        using readChar_stop [of rd st got st' "from" n] readChar_stop [of rd2 st got st' "from" n]
          got Inr st'_def by simp
    qed
  qed
qed

lemma no_boundary:
  assumes "ctr st = 0" "0 \<le> pos st" "pos st \<le> int (length bs)"
    "\<And>i. 0 < n \<Longrightarrow> from \<le> i \<Longrightarrow> int i < pos st \<Longrightarrow> bs ! i \<noteq> 10"
  shows "snd (readChar (file_read bs) from n st) = Inr (res st)"
  using assms
proof (induction "file_read bs" "from" n st rule: readChar.induct)
  case (1 "from" n st)
  obtain got where got: "file_read bs (pos st - 1) = Inr got"
    using "1.prems"(2)
    by (cases "file_read bs (pos st - 1)") (auto simp: file_read_def Let_def split: if_splits)
  define st' where "st' = classify (st\<lparr>pos := pos st - 1, buf := (case got of Some b \<Rightarrow> b | None \<Rightarrow> buf st)\<rparr>)"
  have res': "res st' = res st" and ps: "pos st' = pos st - 1" and c': "ctr st' \<le> 1"
    using "1.prems"(1) by (simp_all add: st'_def classify_def)
  show ?case
  proof (cases "int from \<le> pos st - 1 \<and> int (ctr st') < n")
    case True
    then have n: "0 < n" by linarith
    from True have "0 \<le> pos st - 1" by linarith
    then obtain i where i: "pos st - 1 = int i"
      using nonneg_int_cases by blast
    with True have fi: "from \<le> i" by simp
    have "bs ! i \<noteq> 10"
      using "1.prems"(4) [OF n fi] i by simp
    moreover have "got = Some (bs ! i)"
      using got i "1.prems"(3) by (auto simp: file_read_def Let_def split: if_splits)
    ultimately have c0: "ctr st' = 0"
      using "1.prems"(1) by (simp add: st'_def classify_def)
    have "snd (readChar (file_read bs) from n st') = Inr (res st')"
      using "1.hyps" [OF refl got st'_def] True c0 ps i "1.prems"(3,4) by simp
    then show ?thesis
      using readChar_continue [of "file_read bs" st got st' "from" n] got st'_def True res'
      by (simp add: logged_def)
  next
    case False
    then show ?thesis
      using readChar_stop [of "file_read bs" st got st' "from" n] got st'_def res' by simp
  qed
qed

lemma file_read_prefix:
  "p < int (length X) \<Longrightarrow> file_read (X @ 10 # T) p = file_read (X @ [10]) p"
  by (cases X) (auto simp: file_read_def Let_def nth_append nth_Cons')

lemma tail_scan:
  assumes "10 \<notin> set T"
  shows "snd (readChar (file_read (X @ 10 # T)) from n
                \<lparr>pos = int (length (X @ 10 # T)), ctr = 0, cur = [], res = [], buf = b\<rparr>) =
         snd (readChar (file_read (X @ [10])) from n
                \<lparr>pos = int (length (X @ [10])), ctr = 0, cur = [], res = [], buf = b\<rparr>)"
proof (cases "from \<le> Suc (length X) \<and> 0 < n")
  case True
  let ?st1 = "\<lparr>pos = int (length X), ctr = 1, cur = [], res = [], buf = 10\<rparr>"
  have A: "snd (readChar (file_read (X @ 10 # T)) from n
                \<lparr>pos = int (length (X @ 10 # T)), ctr = 0, cur = [], res = [], buf = b\<rparr>) =
      (if from \<le> length X \<and> 1 < n
       then snd (readChar (file_read (X @ 10 # T)) from n ?st1) else Inr [])"
    using boundary [of T "from" X 0 n "[]" "[]" "[]" b] assms True by (simp add: add_ac)
  have B: "snd (readChar (file_read (X @ [10])) from n
                \<lparr>pos = int (length (X @ [10])), ctr = 0, cur = [], res = [], buf = b\<rparr>) =
      (if from \<le> length X \<and> 1 < n
       then snd (readChar (file_read (X @ [10])) from n ?st1) else Inr [])"
    using boundary [of "[]" "from" X 0 n "[]" "[]" "[]" b] True by (simp add: add_ac)
  have "readChar (file_read (X @ 10 # T)) from n ?st1 = readChar (file_read (X @ [10])) from n ?st1"
    by (rule readChar_cong) (rule file_read_prefix, simp)
  with A B show ?thesis by simp
next
  case False
  have A: "snd (readChar (file_read (X @ 10 # T)) from n
                \<lparr>pos = int (length (X @ 10 # T)), ctr = 0, cur = [], res = [], buf = b\<rparr>) = Inr []"
  proof -
    have "(X @ 10 # T) ! i \<noteq> 10" if "0 < n" "from \<le> i" "i < length (X @ 10 # T)" for i
    proof -
      from that False have "Suc (length X) < i" by simp
      then have "(X @ 10 # T) ! i = T ! (i - Suc (length X))"
        by (simp add: nth_append nth_Cons')
      moreover have "i - Suc (length X) < length T"
        using that \<open>Suc (length X) < i\<close> by simp
      ultimately show ?thesis
        using assms by (metis nth_mem)
    qed
    then show ?thesis
      using no_boundary [of "\<lparr>pos = int (length (X @ 10 # T)), ctr = 0, cur = [], res = [], buf = b\<rparr>"
          "X @ 10 # T" n "from"]
      by simp
  qed
  have B: "snd (readChar (file_read (X @ [10])) from n
                \<lparr>pos = int (length (X @ [10])), ctr = 0, cur = [], res = [], buf = b\<rparr>) = Inr []"
    using no_boundary [of "\<lparr>pos = int (length (X @ [10])), ctr = 0, cur = [], res = [], buf = b\<rparr>"
          "X @ [10]" n "from"] False
    by simp
  from A B show ?thesis by simp
qed

lemma scan_error_iff:
  "snd (readChar rd from n st) = Inl e \<longleftrightarrow>
   (\<exists>q. Read_call q \<in> set (fst (readChar rd from n st)) \<and> rd q = Inl e)"
proof (induction rd "from" n st rule: readChar.induct)
  case (1 rd "from" n st)
  show ?case
  proof (cases "rd (pos st - 1)")
    case (Inl e0)
    then show ?thesis
      by (auto simp: readChar_error)
  next
    case (Inr got)
    define st' where "st' = classify (st\<lparr>pos := pos st - 1, buf := (case got of Some b \<Rightarrow> b | None \<Rightarrow> buf st)\<rparr>)"
    show ?thesis
    proof (cases "int from \<le> pos st - 1 \<and> int (ctr st') < n")
      case True
      have "snd (readChar rd from n st') = Inl e \<longleftrightarrow>
          (\<exists>q. Read_call q \<in> set (fst (readChar rd from n st')) \<and> rd q = Inl e)"
        using "1.IH" [OF refl Inr st'_def] True by simp
      then show ?thesis
        using readChar_continue [of rd st got st' "from" n] Inr st'_def True
        by (auto simp: logged_def)
    next
      case False
      then show ?thesis
        using readChar_stop [of rd st got st' "from" n] Inr st'_def by auto
    qed
  qed
qed

lemma scan_fails:
  assumes "fs_open f p = Inl e \<or>
     (\<exists>rd q. fs_open f p = Inr rd \<and> Read_call q \<in> set (fst (readLastLines f junk p from to n)) \<and>
        rd q = Inl e)"
  shows "snd (readLastLines f junk p from to n) = Inl e"
  using assms scan_error_iff [of _ "from" n _ e]
  by (auto simp: readLastLines_def logged_def)

lemma scan_after_newline:
  assumes "\<forall>l \<in> set ls. 10 \<notin> set l" "ls \<noteq> []" "10 \<notin> set T" "2 \<le> n" "int (length ls) \<le> n"
  shows "readChar (file_read (P0 @ 10 # terminated ls @ T @ R)) (Suc (length P0)) n
           \<lparr>pos = int (Suc (length P0) + length (terminated ls) + length T), ctr = 0, cur = [],
            res = [], buf = b\<rparr> =
         (reads (length P0) (Suc (length P0) + length (terminated ls) + length T) @ [Close_call],
          Inr (map decode ls))"
proof -
  let ?X = "P0 @ preceded ls"
  let ?to = "Suc (length ?X + length T)"
  have pl: "Suc 0 \<le> length (preceded ls)"
    using assms(2) by (cases ls) simp_all
  have "readChar (file_read (?X @ 10 # T @ R)) (Suc (length P0)) n
           \<lparr>pos = int (length ?X + 1 + length T), ctr = 0, cur = [], res = [], buf = b\<rparr> =
        logs (reads (length ?X) (length ?X + 1 + length T))
          (readChar (file_read (?X @ 10 # T @ R)) (Suc (length P0)) n
             \<lparr>pos = int (length ?X), ctr = 1, cur = [], res = [], buf = 10\<rparr>)"
    using boundary [of T "Suc (length P0)" ?X 0 n R "[]" "[]" b] assms pl by simp
  moreover have "readChar (file_read (P0 @ preceded ls @ 10 # T @ R)) (Suc (length P0)) n
             \<lparr>pos = int (length P0 + length (preceded ls)), ctr = 1, cur = [], res = [], buf = 10\<rparr> =
        logs (reads (length P0) (length P0 + length (preceded ls)))
          ([Close_call], Inr (map decode ls @ []))"
    using lines_run [of ls 1 n "Suc (length P0)" P0 "[]" "10 # T @ R" 10] assms by simp
  ultimately show ?thesis
    using reads_append [of "length P0" "length ?X" ?to]
    by (simp add: add_ac preceded_terminated length_terminated)
qed

lemma scan_after_other:
  assumes "\<forall>l \<in> set ls. 10 \<notin> set l" "ls \<noteq> []" "10 \<notin> set T" "x \<noteq> 10" "2 \<le> n"
    "int (length ls) \<le> n"
  shows "readChar (file_read (P0 @ x # terminated ls @ T @ R)) (Suc (length P0)) n
           \<lparr>pos = int (Suc (length P0) + length (terminated ls) + length T), ctr = 0, cur = [],
            res = [], buf = b\<rparr> =
         (reads (length P0) (Suc (length P0) + length (terminated ls) + length T) @ [Close_call],
          Inr (map decode (tl ls)))"
proof -
  obtain l1 ls' where ls: "ls = l1 # ls'"
    using assms(2) by (cases ls) auto
  let ?Y = "P0 @ x # l1"
  let ?X = "?Y @ preceded ls'"
  let ?to = "Suc (length ?X + length T)"
  let ?bs = "?X @ 10 # T @ R"
  have bs: "P0 @ x # terminated ls @ T @ R = ?bs"
    using preceded_terminated [of ls' "T @ R"] by (simp add: ls)
  have to: "Suc (length P0) + length (terminated ls) + length T = ?to"
    by (simp add: ls length_terminated)
  have w: "10 \<notin> set (x # l1)"
    using assms(1,4) ls by simp
  have first: "readChar (file_read ?bs) (Suc (length P0)) n
           \<lparr>pos = int (length ?X + 1 + length T), ctr = 0, cur = [], res = [], buf = b\<rparr> =
        logs (reads (length ?X) (length ?X + 1 + length T))
          (readChar (file_read ?bs) (Suc (length P0)) n
             \<lparr>pos = int (length ?X), ctr = 1, cur = [], res = [], buf = 10\<rparr>)"
    using boundary [of T "Suc (length P0)" ?X 0 n R "[]" "[]" b] assms by simp
  have rest: "readChar (file_read ?bs) (Suc (length P0)) n
             \<lparr>pos = int (length ?X), ctr = 1, cur = [], res = [], buf = 10\<rparr> =
        (reads (length P0) (length ?X) @ [Close_call], Inr (map decode ls'))"
  proof (cases "ls' = []")
    case True
    then show ?thesis
      using partial_stop [of "x # l1" "Suc (length P0)" P0 1 n "10 # T @ R" "[]" "[]" 10] w assms(5)
      by simp
  next
    case False
    have "readChar (file_read (?Y @ preceded ls' @ 10 # T @ R)) (Suc (length P0)) n
             \<lparr>pos = int (length ?Y + length (preceded ls')), ctr = 1, cur = [], res = [], buf = 10\<rparr> =
        logs (reads (length ?Y) (length ?Y + length (preceded ls')))
          (readChar (file_read (?Y @ preceded ls' @ 10 # T @ R)) (Suc (length P0)) n
             \<lparr>pos = int (length ?Y), ctr = length ([]::jsstring list) + length ls', cur = [],
              res = map decode ls' @ [], buf = 10\<rparr>)"
      using lines_run [of ls' 1 n "Suc (length P0)" ?Y "[]" "10 # T @ R" 10] assms False ls
      by simp
    moreover have "readChar (file_read (P0 @ (x # l1) @ preceded ls' @ 10 # T @ R)) (Suc (length P0)) n
             \<lparr>pos = int (length P0 + length (x # l1)), ctr = length ls', cur = [],
              res = map decode ls', buf = 10\<rparr> =
        (reads (length P0) (length P0 + length (x # l1)) @ [Close_call], Inr (map decode ls'))"
      using partial_stop [of "x # l1" "Suc (length P0)" P0 "length ls'" n "preceded ls' @ 10 # T @ R"
          "[]" "map decode ls'" 10] w assms(6) ls
      by simp
    ultimately show ?thesis
      using reads_append [of "length P0" "length ?Y" "length ?X"]
      by (simp add: add_ac)
  qed
  show ?thesis
    unfolding bs to
    using first rest reads_append [of "length P0" "length ?X" ?to]
    by (simp add: add_ac ls)
qed

lemma scan_no_newline:
  assumes "10 \<notin> set T" "1 \<le> n"
  shows "readChar (file_read (P0 @ c # T @ R)) (Suc (length P0)) n
           \<lparr>pos = int (Suc (length P0) + length T), ctr = 0, cur = [], res = [], buf = b\<rparr> =
         (reads (length P0) (Suc (length P0) + length T) @ [Close_call], Inr [])"
proof -
  let ?bs = "P0 @ c # T @ R"
  have q: "length P0 < length ?bs" by simp
  have "readChar (file_read ((P0 @ [c]) @ T @ R)) (Suc (length P0)) n
           \<lparr>pos = int (length (P0 @ [c]) + length T), ctr = 0, cur = [], res = [], buf = b\<rparr> =
        logs (reads (length (P0 @ [c])) (length (P0 @ [c]) + length T))
          (readChar (file_read ((P0 @ [c]) @ T @ R)) (Suc (length P0)) n
             \<lparr>pos = int (length (P0 @ [c])), ctr = 0, cur = decode T @ [], res = [],
              buf = (if T = [] then b else hd T)\<rparr>)"
    using skip_run [of T "Suc (length P0)" "P0 @ [c]" 0 n R "[]" "[]" b] assms by simp
  moreover have "readChar (file_read ?bs) (Suc (length P0)) n
             \<lparr>pos = int (Suc (length P0)), ctr = 0, cur = decode T, res = [],
              buf = (if T = [] then b else hd T)\<rparr> =
        ([Read_call (int (length P0)), Close_call], Inr [])"
    using step_other [OF q, of "Suc (length P0)" n 0 "decode T" "[]" "if T = [] then b else hd T"]
      step_newline [OF q, of "Suc (length P0)" n 0 "decode T" "[]" "if T = [] then b else hd T"]
    by (cases "c = 10") (simp_all add: nth_append)
  ultimately show ?thesis
    using reads_low [of "length P0" "Suc (length P0 + length T)"] by simp
qed

section \<open>Properties of the session\<close>

lemma emit_lines:
  "foldl (\<lambda>t' line. emit (Line line) t') t lines = t\<lparr>emitted := emitted t @ map Line lines\<rparr>"
  by (induction lines arbitrary: t) (simp_all add: emit_def)

lemma readLastLines_disk:
  "files p = Some bs \<Longrightarrow>
   readLastLines (disk files) junk p from to n =
     logs [Open_call p]
       (readChar (file_read bs) from n \<lparr>pos = int to, ctr = 0, cur = [], res = [], buf = junk\<rparr>)"
  by (simp add: readLastLines_def disk_def logged_logs)

lemma growth:
  assumes "watcher t = Some w" "w_open w" "fs_stat f (w_path w) = Inr sz" "size' t < sz"
    "snd (readLastLines f junk (path t) (size' t) sz (count t)) = Inr lines"
  shows "run pm [Notify ''change'' fn, Complete (length (in_flight t)) f junk0,
                 Complete (length (in_flight t)) f junk] t =
         t\<lparr>size' := sz, emitted := emitted t @ map Line lines\<rparr>"
  using assms
  by (simp add: run_def step_def listener_def processFileChange_def processFileChange_cb_def
      emit_lines nth_append)

lemma no_growth:
  assumes "watcher t = Some w" "w_open w" "fs_stat f (w_path w) = Inr sz" "sz \<le> size' t"
  shows "run pm [Notify ''change'' fn, Complete (length (in_flight t)) f junk0,
                 Complete (length (in_flight t)) f junk] t = t"
  using assms
  by (simp add: run_def step_def listener_def nth_append)


lemmas scan_eval = readLastLines_def disk_def one_file_def failing_at_def file_read_def readChar.simps
  classify_def logged_def toString_def

lemmas session_eval = run_def step_def Taf_def fresh_def watching_def processFileChange_def
  processFileChange_cb_def setWatcher_def emit_def listener_def close_def posix_lite_def posix_resolve_def posix_dirname_def normalize_segments_def

lemma run_Nil: "run pm [] t = t"
  by (simp add: run_def)

lemma run_Cons: "run pm (a # as) t = run pm as (step pm a t)"
  by (simp add: run_def)

lemma emit_fields:
  "in_flight (emit e t) = in_flight t" "watcher (emit e t) = watcher t" "size' (emit e t) = size' t"
  by (simp_all add: emit_def)

lemma cb_fields:
  "in_flight (processFileChange_cb ns r t) = in_flight t"
  "watcher (processFileChange_cb ns r t) = watcher t"
  "size' (processFileChange_cb ns r t) = (case r of Inl e \<Rightarrow> size' t | Inr ls \<Rightarrow> ns)"
  by (cases r; simp add: processFileChange_cb_def emit_lines emit_fields)+

lemma not_starting_rest:
  "\<not> list_ex starting xs \<Longrightarrow> \<not> list_ex starting (take i xs @ drop (Suc i) xs)"
  by (auto simp: list_ex_iff dest: in_set_takeD in_set_dropD)

lemma shut_notify: "shut t \<Longrightarrow> step pm (Notify ev fn) t = t"
  by (auto simp: shut_def step_def split: option.splits)

lemma shut_step: "shut t \<Longrightarrow> shut (step pm a t)"
proof (cases a)
  case (Complete i f junk)
  assume s: "shut t"
  show ?thesis
  proof (cases "i < length (in_flight t)")
    case True
    let ?rest = "take i (in_flight t) @ drop (Suc i) (in_flight t)"
    have r: "\<not> list_ex starting ?rest"
      using s by (intro not_starting_rest) (simp add: shut_def)
    have x: "\<not> starting (in_flight t ! i)"
      using s True by (auto simp: shut_def list_ex_iff)
    show ?thesis
    proof (cases "in_flight t ! i")
      case (Next_tick p)
      with x show ?thesis by simp
    next
      case (Init_stat p)
      with x show ?thesis by simp
    next
      case (Change_stat p)
      then show ?thesis
        using s r True Complete
        by (auto simp: shut_def step_def emit_def processFileChange_def split: sum.splits)
    next
      case (Scan p "from" ns n)
      then show ?thesis
        using s r True Complete
        by (simp add: shut_def step_def cb_fields)
    qed
  next
    case False
    with s Complete show ?thesis by (simp add: step_def)
  qed
next
  case (Notify ev fn)
  assume "shut t"
  then show ?thesis using Notify by (simp add: shut_notify)
next
  case Close
  assume "shut t"
  then show ?thesis
    using Close by (auto simp: shut_def step_def close_def split: option.splits)
qed

lemma shut_run: "shut t \<Longrightarrow> shut (run pm acts t)"
  by (induction acts arbitrary: t) (simp_all add: shut_step run_Nil run_Cons)

lemma idle_step:
  assumes "watcher t = Some w" "\<not> w_open w" "in_flight t = []"
  shows "step pm a t = t"
  using assms by (cases a) (simp_all add: step_def close_def)

lemma idle_run:
  assumes "watcher t = Some w" "\<not> w_open w" "in_flight t = []"
  shows "run pm acts t = t"
  using assms by (induction acts) (simp_all add: idle_step run_Nil run_Cons)

lemma target_rest:
  "list_all (target_from sz) xs \<Longrightarrow> list_all (target_from sz) (take i xs @ drop (Suc i) xs)"
  by (auto simp: list_all_iff dest: in_set_takeD in_set_dropD)

lemma serial_rest:
  assumes "serial t" "i < length (in_flight t)" "is_scan (in_flight t ! i)"
    "x \<in> set (take i (in_flight t) @ drop (Suc i) (in_flight t))"
  shows "\<not> is_scan x"
proof
  assume x: "is_scan x"
  let ?xs = "in_flight t"
  have split: "?xs = take i ?xs @ ?xs ! i # drop (Suc i) ?xs"
    using assms(2) by (simp add: id_take_nth_drop)
  have "length (filter is_scan ?xs) =
      length (filter is_scan (take i ?xs)) + 1 + length (filter is_scan (drop (Suc i) ?xs))"
    using assms(3) by (subst split) simp
  moreover have "0 < length (filter is_scan (take i ?xs)) + length (filter is_scan (drop (Suc i) ?xs))"
    using assms(4) x by (auto simp: filter_empty_conv simp flip: length_greater_0_conv)
  ultimately show False
    using assms(1) by (simp add: serial_def)
qed

lemma settled_step:
  assumes "settled t" "serial t"
  shows "settled (step pm a t) \<and> size' t \<le> size' (step pm a t)"
proof (cases a)
  case (Complete i f junk)
  show ?thesis
  proof (cases "i < length (in_flight t)")
    case False
    with assms Complete show ?thesis by (simp add: step_def)
  next
    case True
    let ?rest = "take i (in_flight t) @ drop (Suc i) (in_flight t)"
    let ?t = "t\<lparr>in_flight := ?rest\<rparr>"
    have st: "step pm a t = complete (in_flight t ! i) f junk ?t"
      using True Complete by (simp add: step_def)
    have tr: "list_all (target_from (size' t)) ?rest"
      using assms(1) by (simp add: settled_def target_rest del: list_all_append)
    have mem: "in_flight t ! i \<in> set (in_flight t)"
      using True by simp
    show ?thesis
    proof (cases "list_ex starting (in_flight t)")
      case True
      then have one: "size' t = 0" "length (in_flight t) = 1" "watcher t = None"
        using assms(1) by (simp_all add: settled_def)
      then have i0: "i = 0" and r: "?rest = []"
        using \<open>i < length (in_flight t)\<close> by simp_all
      have s: "starting (in_flight t ! i)"
        using True one(2) i0 by (cases "in_flight t") (simp_all add: list_ex_iff)
      show ?thesis
      proof (cases "in_flight t ! i")
        case (Next_tick p)
        then show ?thesis
          using st one i0 by (simp add: settled_def)
      next
        case (Init_stat p)
        then show ?thesis
          using st one i0
          by (simp add: settled_def emit_def processFileChange_def setWatcher_def split: sum.splits)
      next
        case (Change_stat p)
        with s show ?thesis by simp
      next
        case (Scan p "from" ns n)
        with s show ?thesis by simp
      qed
    next
      case False
      then have ns: "\<not> list_ex starting ?rest"
        by (rule not_starting_rest)
      have x: "\<not> starting (in_flight t ! i)"
        using False mem by (auto simp: list_ex_iff)
      show ?thesis
      proof (cases "in_flight t ! i")
        case (Next_tick p)
        with x show ?thesis by simp
      next
        case (Init_stat p)
        with x show ?thesis by simp
      next
        case (Change_stat p)
        then show ?thesis
          using st tr ns
          by (auto simp: settled_def emit_def processFileChange_def split: sum.splits)
      next
        case (Scan p "from" ns' n)
        have le: "size' t \<le> ns'"
          using assms(1) mem Scan by (auto simp: settled_def list_all_iff)
        have none: "\<And>x. x \<in> set ?rest \<Longrightarrow> \<not> is_scan x"
          using serial_rest [OF assms(2) \<open>i < length (in_flight t)\<close>] Scan by simp
        have "target_from k x" if "x \<in> set ?rest" for k x
          using none [OF that] by (cases x) simp_all
        then have all: "list_all (target_from k) ?rest" for k
          by (simp add: list_all_iff del: set_append)
        show ?thesis
          using st Scan ns le tr all
          by (cases "snd (readLastLines f junk p from ns' n)")
            (simp_all add: settled_def cb_fields del: list_all_append list_ex_append)
      qed
    qed
  qed
next
  case (Notify ev fn)
  show ?thesis
  proof (cases "list_ex starting (in_flight t)")
    case True
    then have "watcher t = None"
      using assms(1) by (simp add: settled_def)
    with assms Notify show ?thesis by (simp add: step_def)
  next
    case False
    with assms(1) Notify show ?thesis
      by (auto simp: settled_def step_def listener_def Let_def split: option.splits)
  qed
next
  case Close
  with assms(1) show ?thesis
    by (auto simp: settled_def step_def close_def split: option.splits)
qed

lemma settled_run:
  "settled t \<Longrightarrow> serial_run pm acts t \<Longrightarrow>
   settled (run pm acts t) \<and> size' t \<le> size' (run pm acts t)"
proof (induction acts arbitrary: t)
  case Nil
  then show ?case by (simp add: run_Nil)
next
  case (Cons a acts)
  from Cons.prems have s: "serial t" "serial_run pm acts (step pm a t)"
    by simp_all
  from settled_step [OF Cons.prems(1) s(1), of pm a]
  have 1: "settled (step pm a t)" "size' t \<le> size' (step pm a t)"
    by simp_all
  from Cons.IH [OF 1(1) s(2)] 1(2) show ?case
    by (simp add: run_Cons)
qed

text \<open>
  For \<open>n >= 0\<close> a scan returns at most \<open>n\<close> lines, and for \<open>n >= 2\<close> a scan that
  meets more than \<open>n\<close> newline-terminated lines above \<open>from\<close> returns exactly the last
  \<open>n\<close> of them.
\<close>

lemma readChar_bounded:
  assumes "length (res st) \<le> ctr st" "int (length (res st)) < n \<or> ctr st = 0"
    "snd (readChar rd from n st) = Inr ls"
  shows "int (length ls) \<le> max n 0"
  using assms
proof (induction rd "from" n st rule: readChar.induct)
  case (1 rd "from" n st)
  show ?case
  proof (cases "rd (pos st - 1)")
    case (Inl e)
    with "1.prems"(3) show ?thesis
      by (simp add: readChar_error)
  next
    case (Inr got)
    define st' where "st' = classify (st\<lparr>pos := pos st - 1, buf := (case got of Some b \<Rightarrow> b | None \<Rightarrow> buf st)\<rparr>)"
    have inv: "length (res st') \<le> ctr st'" "int (length (res st')) \<le> max n 0"
      using "1.prems"(1,2) by (auto simp: st'_def classify_def)
    show ?thesis
    proof (cases "int from \<le> pos st - 1 \<and> int (ctr st') < n")
      case True
      have "snd (readChar rd from n st') = Inr ls"
        using readChar_continue [of rd st got st' "from" n] Inr st'_def True "1.prems"(3)
        by (simp add: logged_def)
      moreover have "int (length (res st')) < n \<or> ctr st' = 0"
        using inv(1) True by linarith
      ultimately show ?thesis
        using "1.IH" [OF refl Inr st'_def _ inv(1)] True by simp
    next
      case False
      then have "ls = res st'"
        using readChar_stop [of rd st got st' "from" n] Inr st'_def "1.prems"(3) by simp
      with inv(2) show ?thesis by simp
    qed
  qed
qed

lemma scan_at_most_n:
  assumes "0 \<le> n" "snd (readLastLines f junk p from to n) = Inr ls"
  shows "int (length ls) \<le> n"
proof (cases "fs_open f p")
  case (Inl e)
  with assms(2) show ?thesis by (simp add: readLastLines_def)
next
  case (Inr rd)
  then have "snd (readChar rd from n \<lparr>pos = int to, ctr = 0, cur = [], res = [], buf = junk\<rparr>) = Inr ls"
    using assms(2) by (simp add: readLastLines_def logged_def)
  from readChar_bounded [OF _ _ this] assms(1) show ?thesis by simp
qed

lemma scan_overflow:
  assumes "\<forall>l \<in> set ls. 10 \<notin> set l" "2 \<le> n" "int (length ls) = n" "from \<le> Suc (length Y)"
  shows "readChar (file_read (Y @ 10 # terminated ls @ R)) from n
           \<lparr>pos = int (Suc (length Y) + length (terminated ls)), ctr = 0, cur = [], res = [], buf = b\<rparr> =
         (reads (length Y) (Suc (length Y) + length (terminated ls)) @ [Close_call],
          Inr (map decode ls))"
proof -
  let ?X = "Y @ preceded ls"
  have ne: "ls \<noteq> []" using assms(2,3) by auto
  have pl: "Suc 0 \<le> length (preceded ls)"
    using ne by (cases ls) simp_all
  have "readChar (file_read (?X @ 10 # [] @ R)) from n
           \<lparr>pos = int (length ?X + 1 + length ([]::byte list)), ctr = 0, cur = [], res = [], buf = b\<rparr> =
        logs (reads (length ?X) (length ?X + 1 + length ([]::byte list)))
          (readChar (file_read (?X @ 10 # [] @ R)) from n
             \<lparr>pos = int (length ?X), ctr = 1, cur = [], res = [], buf = 10\<rparr>)"
    using boundary [of "[]" "from" ?X 0 n R "[]" "[]" b] assms pl by simp
  moreover have "readChar (file_read (Y @ preceded ls @ 10 # R)) from n
             \<lparr>pos = int (length Y + length (preceded ls)), ctr = 1, cur = [], res = [], buf = 10\<rparr> =
        logs (reads (length Y) (length Y + length (preceded ls)))
          ([Close_call], Inr (map decode ls @ []))"
    using lines_run [of ls 1 n "from" Y "[]" "10 # R" 10] assms ne by simp
  ultimately show ?thesis
    using reads_append [of "length Y" "length ?X" "Suc (length ?X)"]
    by (simp add: add_ac preceded_terminated length_terminated)
qed

lemma overflow_keeps_last_n:
  assumes "\<forall>l \<in> set new. 10 \<notin> set l" "2 \<le> n" "int (length new) = n"
    and "files p = Some (P @ terminated (old @ [l0]) @ terminated new)"
  shows "snd (readLastLines (disk files) junk p (length P)
           (length (P @ terminated (old @ [l0]) @ terminated new)) n) = Inr (map decode new)"
  using scan_overflow [of new n "length P" "P @ terminated old @ l0" "[]" junk] assms
  by (simp add: readLastLines_disk add_ac)

section \<open>The claims\<close>

text \<open>
  C1. The claim: a file of \<open>k\<close> newline-terminated lines and a session constructed with
  \<open>lineCount = n <= k\<close> gives the last \<open>n\<close> lines as line events. The code run on the
  file \<open>a\\n\<close> with \<open>n = 1\<close> emits nothing (the first newline already makes
  \<open>ctr = 1\<close>, and \<open>ctr < n\<close> ends the loop), and on \<open>a\\nb\\n\<close> with \<open>n = 2\<close> it
  emits only \<open>b\<close>: the first line of the file has no newline before it.
\<close>

theorem first_lines_missing:
  "Taf ''test.log'' (Some 1) = Inr (fresh ''test.log'' 1) \<and>
   emitted (run posix_lite
      [Complete 0 (one_file ''test.log'' [97, 10]) 0,
       Complete 0 (one_file ''test.log'' [97, 10]) 0,
       Complete 0 (one_file ''test.log'' [97, 10]) 0] (fresh ''test.log'' 1)) = [] \<and>
   emitted (run posix_lite
      [Complete 0 (one_file ''test.log'' [97, 10, 98, 10]) 0,
       Complete 0 (one_file ''test.log'' [97, 10, 98, 10]) 0,
       Complete 0 (one_file ''test.log'' [97, 10, 98, 10]) 0] (fresh ''test.log'' 2)) = [Line [98]]"
  by (simp add: scan_eval session_eval)

lemma decode_ascii: "\<forall>b\<in>set l. b < 128 \<Longrightarrow> decode l = map unat l"
  by (induction l) (simp_all add: toString_def)

lemma appended_lines_decoded:
  assumes "watcher t = Some w" "w_open w" "w_path w = path t"
    and "size' t = Suc (length P0)" "files (path t) = Some (P0 @ 10 # terminated ls)"
    and "\<forall>l\<in>set ls. 10 \<notin> set l" "2 \<le> count t" "int (length ls) \<le> count t"
  shows "run pm [Notify ''change'' fn, Complete (length (in_flight t)) (disk files) j0,
                 Complete (length (in_flight t)) (disk files) j1] t =
         t\<lparr>size' := length (P0 @ 10 # terminated ls),
           emitted := emitted t @ map (\<lambda>l. Line (decode l)) ls\<rparr>"
proof (cases "ls = []")
  case True
  have "fs_stat (disk files) (w_path w) = Inr (Suc (length P0))"
    using assms True by (simp add: disk_def)
  then show ?thesis
    using no_growth [OF assms(1,2), of "disk files" "Suc (length P0)" pm fn j0 j1] assms(4) True
    by simp
next
  case False
  let ?bs = "P0 @ 10 # terminated ls"
  have st: "fs_stat (disk files) (w_path w) = Inr (length ?bs)"
    using assms by (simp add: disk_def)
  have gt: "size' t < length ?bs"
    using assms(4) False by (cases ls) simp_all
  have "readChar (file_read (P0 @ 10 # terminated ls @ [])) (Suc (length P0)) (count t)
           \<lparr>pos = int (Suc (length P0) + length (terminated ls)), ctr = 0, cur = [], res = [], buf = j1\<rparr> =
         (reads (length P0) (Suc (length P0) + length (terminated ls)) @ [Close_call],
          Inr (map decode ls))"
    using assms False by (intro scan_appended) simp_all
  then have "snd (readLastLines (disk files) j1 (path t) (size' t) (length ?bs) (count t)) =
      Inr (map decode ls)"
    using assms(4,5) by (simp add: readLastLines_disk)
  from growth [OF assms(1,2) st gt this, of pm fn j0] show ?thesis
    by (simp add: comp_def)
qed

text \<open>
  C2 (as amended). A session whose \<open>lastOffset\<close> is \<open>S1 > 0\<close>, where the byte at
  \<open>S1 - 1\<close> is a newline (the content scanned so far, \<open>P0\<close> and that newline, ends a
  line), and whose \<open>lineCount\<close> is at least 2: when \<open>k <= lineCount\<close> newline-terminated
  lines of ASCII bytes are appended and one change notification is handled (the size probe,
  then the scan), exactly those \<open>k\<close> lines are emitted as line events, each as the string of
  its characters, in file order, and \<open>lastOffset\<close> becomes the new size.
\<close>

theorem appended_lines_emitted:
  assumes "watcher t = Some w" "w_open w" "w_path w = path t"
    and "size' t = Suc (length P0)" "files (path t) = Some (P0 @ 10 # terminated ls)"
    and "\<forall>l\<in>set ls. 10 \<notin> set l" "2 \<le> count t" "int (length ls) \<le> count t"
    and "\<forall>l\<in>set ls. \<forall>b\<in>set l. b < 128"
  shows "run pm [Notify ''change'' fn, Complete (length (in_flight t)) (disk files) j0,
                 Complete (length (in_flight t)) (disk files) j1] t =
         t\<lparr>size' := length (P0 @ 10 # terminated ls),
           emitted := emitted t @ map (\<lambda>l. Line (map unat l)) ls\<rparr>"
proof -
  have "map (\<lambda>l. Line (decode l)) ls = map (\<lambda>l. Line (map unat l)) ls"
    using assms(9) by (simp add: decode_ascii)
  moreover have "run pm [Notify ''change'' fn, Complete (length (in_flight t)) (disk files) j0,
                 Complete (length (in_flight t)) (disk files) j1] t =
         t\<lparr>size' := length (P0 @ 10 # terminated ls),
           emitted := emitted t @ map (\<lambda>l. Line (decode l)) ls\<rparr>"
    using assms(1-8) by (rule appended_lines_decoded [where w = w and ls = ls and ?P0.0 = P0])
  ultimately show ?thesis
    by simp
qed

theorem appended_lines_emitted_witness:
  "run posix_lite [Notify ''change'' None, Complete 0 (disk [''test.log'' \<mapsto> [120, 10, 97, 10, 98, 10]]) 0,
        Complete 0 (disk [''test.log'' \<mapsto> [120, 10, 97, 10, 98, 10]]) 0] (watching ''test.log'' 10 2) =
     (watching ''test.log'' 10 2)\<lparr>size' := 6, emitted := [Line [97], Line [98]]\<rparr>"
  using appended_lines_emitted [of "watching ''test.log'' 10 2" "\<lparr>w_path = ''test.log'', w_open = True\<rparr>"
     "[120]" "[''test.log'' \<mapsto> [120, 10, 97, 10, 98, 10]]" "[[97], [98]]" posix_lite None 0 0]
  by (simp add: watching_def terminated_def)

text \<open>
  The claim without the condition on the byte before \<open>lastOffset\<close> fails: after the
  unterminated \<open>x\<close> has been scanned (\<open>lastOffset = 1\<close>), appending the line \<open>a\\n\<close>
  emits nothing, since the scan reads \<open>x\<close> at offset 0 and meets no second newline.
\<close>

theorem appended_after_partial_lost:
  "run posix_lite
      [Notify ''change'' None,
       Complete 0 (one_file ''test.log'' [120, 97, 10]) 0,
       Complete 0 (one_file ''test.log'' [120, 97, 10]) 0] (watching ''test.log'' 10 1) =
   (watching ''test.log'' 10 1)\<lparr>size' := 3\<rparr> \<and>
   emitted ((watching ''test.log'' 10 1)\<lparr>size' := 3\<rparr>) \<noteq> emitted (watching ''test.log'' 10 1) @ [Line [97]]"
  by (simp add: scan_eval session_eval)

text \<open>
  A line with a byte outside ASCII is not emitted as its text: the scan converts every byte
  on its own, so the two bytes of the UTF-8 encoding of U+00E9 come out as two U+FFFD.
\<close>

lemma non_ascii_line_garbled:
  "run posix_lite
      [Notify ''change'' None,
       Complete 0 (one_file ''test.log'' [120, 10, 195, 169, 10]) 0,
       Complete 0 (one_file ''test.log'' [120, 10, 195, 169, 10]) 0] (watching ''test.log'' 10 2) =
   (watching ''test.log'' 10 2)\<lparr>size' := 5, emitted := [Line [65533, 65533]]\<rparr>"
  by (simp add: scan_eval session_eval)
text \<open>
  C3. The claim: when one growth step appends more than \<open>n\<close> newline-terminated lines,
  exactly the most recent \<open>n\<close> are emitted. The code with \<open>lineCount = 1\<close>, after
  \<open>x\\n\<close> has been scanned and \<open>a\\nb\\n\<close> is appended, emits no line at all, and
  advances \<open>lastOffset\<close> to 6.
\<close>

theorem overflow_with_count_one:
  "run posix_lite
      [Notify ''change'' None,
       Complete 0 (one_file ''test.log'' [120, 10, 97, 10, 98, 10]) 0,
       Complete 0 (one_file ''test.log'' [120, 10, 97, 10, 98, 10]) 0] (watching ''test.log'' 1 2) =
   (watching ''test.log'' 1 2)\<lparr>size' := 6\<rparr> \<and>
   emitted ((watching ''test.log'' 1 2)\<lparr>size' := 6\<rparr>) = []"
  by (simp add: scan_eval session_eval)

text \<open>
  C4. What the scan has accumulated when it meets its first newline is dropped: a file that
  ends in an unterminated partial line \<open>T\<close> gives the same lines as the file without
  \<open>T\<close>; and a range \<open>[from, to)\<close> of a file that holds no newline byte gives no line.
\<close>

theorem partial_tail_never_emitted:
  "(10 \<notin> set T \<longrightarrow>
      snd (readLastLines (disk [p \<mapsto> X @ 10 # T]) junk p from (length (X @ 10 # T)) n) =
      snd (readLastLines (disk [p \<mapsto> X @ [10]]) junk p from (length (X @ [10])) n)) \<and>
   (to \<le> length bs \<and> (\<forall>i. from \<le> i \<and> i < to \<longrightarrow> bs ! i \<noteq> 10) \<longrightarrow>
      snd (readLastLines (disk [p \<mapsto> bs]) junk p from to n) = Inr [])"
proof (intro conjI impI)
  assume "10 \<notin> set T"
  then show "snd (readLastLines (disk [p \<mapsto> X @ 10 # T]) junk p from (length (X @ 10 # T)) n) =
      snd (readLastLines (disk [p \<mapsto> X @ [10]]) junk p from (length (X @ [10])) n)"
    using tail_scan [of T X "from" n junk] by (simp add: readLastLines_disk)
next
  assume "to \<le> length bs \<and> (\<forall>i. from \<le> i \<and> i < to \<longrightarrow> bs ! i \<noteq> 10)"
  then show "snd (readLastLines (disk [p \<mapsto> bs]) junk p from to n) = Inr []"
    using no_boundary [of "\<lparr>pos = int to, ctr = 0, cur = [], res = [], buf = junk\<rparr>" bs n "from"]
    by (simp add: readLastLines_disk)
qed


theorem partial_tail_never_emitted_witness:
  "snd (readLastLines (disk [''test.log'' \<mapsto> [97, 10, 98, 10, 99, 100]]) 0 ''test.log'' 0 6 10) =
   snd (readLastLines (disk [''test.log'' \<mapsto> [97, 10, 98, 10]]) 0 ''test.log'' 0 4 10) \<and>
   snd (readLastLines (disk [''test.log'' \<mapsto> [97, 98]]) 0 ''test.log'' 0 2 10) = Inr []"
proof -
  have a: "10 \<notin> set [99, 100 :: byte]" by simp
  have "[97, 98 :: byte] ! i \<noteq> 10" if "i < 2" for i
  proof -
    from that have "i = 0 \<or> i = 1" by arith
    then show ?thesis by auto
  qed
  then have b: "2 \<le> length [97, 98 :: byte] \<and> (\<forall>i. 0 \<le> i \<and> i < 2 \<longrightarrow> [97, 98 :: byte] ! i \<noteq> 10)"
    by simp
  show ?thesis
    using partial_tail_never_emitted [where T = "[99, 100]" and X = "[97, 10, 98]" and p = "''test.log''"
        and junk = 0 and n = 10 and to = 2 and bs = "[97, 98]" and ?from = 0] a b
    by (simp add: eval_nat_numeral)
qed

text \<open>
  C5 (as amended). The callback of a successful scan sets \<open>lastOffset\<close> to the size that was
  observed when the scan was dispatched. A size probe that returns a size greater than
  \<open>lastOffset\<close> dispatches one scan from \<open>lastOffset\<close> to that size; a probe that returns
  a size less than or equal to \<open>lastOffset\<close> dispatches no scan and emits nothing. As long as
  at most one scan is in flight at any time, \<open>lastOffset\<close> never decreases over the life of
  a session, whatever happens to it.
\<close>

theorem lastOffset_monotone:
  "(i < length (in_flight t) \<and> in_flight t ! i = Scan p from newSize n \<and>
      snd (readLastLines f junk p from newSize n) = Inr lines \<longrightarrow>
        size' (step pm (Complete i f junk) t) = newSize) \<and>
   (i < length (in_flight t) \<and> in_flight t ! i = Change_stat p \<and> fs_stat f p = Inr sz \<longrightarrow>
        step pm (Complete i f junk) t =
          (if size' t < sz
           then t\<lparr>in_flight := take i (in_flight t) @ drop (Suc i) (in_flight t) @
                                 [Scan (path t) (size' t) sz (count t)]\<rparr>
           else t\<lparr>in_flight := take i (in_flight t) @ drop (Suc i) (in_flight t)\<rparr>)) \<and>
   (settled t \<and> serial_run pm acts t \<longrightarrow> size' t \<le> size' (run pm acts t))"
proof (intro conjI impI)
  assume "i < length (in_flight t) \<and> in_flight t ! i = Scan p from newSize n \<and>
      snd (readLastLines f junk p from newSize n) = Inr lines"
  then show "size' (step pm (Complete i f junk) t) = newSize"
    by (simp add: step_def cb_fields)
next
  assume "i < length (in_flight t) \<and> in_flight t ! i = Change_stat p \<and> fs_stat f p = Inr sz"
  then show "step pm (Complete i f junk) t =
          (if size' t < sz
           then t\<lparr>in_flight := take i (in_flight t) @ drop (Suc i) (in_flight t) @
                                 [Scan (path t) (size' t) sz (count t)]\<rparr>
           else t\<lparr>in_flight := take i (in_flight t) @ drop (Suc i) (in_flight t)\<rparr>)"
    by (simp add: step_def processFileChange_def)
next
  assume "settled t \<and> serial_run pm acts t"
  then show "size' t \<le> size' (run pm acts t)"
    using settled_run [of t pm acts] by simp
qed

theorem lastOffset_monotone_witness:
  "size' (step posix_lite (Complete 0 (one_file ''test.log'' [120, 10, 97, 10]) 0)
      ((watching ''test.log'' 10 2)\<lparr>in_flight := [Scan ''test.log'' 2 4 10]\<rparr>)) = 4 \<and>
   step posix_lite (Complete 0 (one_file ''test.log'' [120, 10]) 0)
      ((watching ''test.log'' 10 2)\<lparr>in_flight := [Change_stat ''test.log'']\<rparr>) =
     watching ''test.log'' 10 2 \<and>
   size' (fresh ''test.log'' 10) \<le>
     size' (run posix_lite
       [Complete 0 (one_file ''test.log'' [120, 10]) 0,
        Complete 0 (one_file ''test.log'' [120, 10]) 0,
        Complete 0 (one_file ''test.log'' [120, 10]) 0,
        Notify ''change'' None,
        Complete 0 (one_file ''test.log'' [120, 10, 97, 10]) 0,
        Complete 0 (one_file ''test.log'' [120, 10, 97, 10]) 0] (fresh ''test.log'' 10))"
proof -
  let ?f = "one_file ''test.log'' [120, 10, 97, 10]"
  let ?g = "one_file ''test.log'' [120, 10]"
  let ?t1 = "(watching ''test.log'' 10 2)\<lparr>in_flight := [Scan ''test.log'' 2 4 10]\<rparr>"
  let ?t2 = "(watching ''test.log'' 10 2)\<lparr>in_flight := [Change_stat ''test.log'']\<rparr>"
  let ?acts = "[Complete 0 ?g 0, Complete 0 ?g 0, Complete 0 ?g 0, Notify ''change'' None,
        Complete 0 ?f 0, Complete 0 ?f 0]"
  have a: "0 < length (in_flight ?t1) \<and> in_flight ?t1 ! 0 = Scan ''test.log'' 2 4 10 \<and>
      snd (readLastLines ?f 0 ''test.log'' 2 4 10) = Inr [[97]]"
    by (simp add: watching_def scan_eval)
  have b: "0 < length (in_flight ?t2) \<and> in_flight ?t2 ! 0 = Change_stat ''test.log'' \<and>
      fs_stat ?g ''test.log'' = Inr 2"
    by (simp add: watching_def one_file_def disk_def)
  have c: "settled (fresh ''test.log'' 10) \<and> serial_run posix_lite ?acts (fresh ''test.log'' 10)"
    by (simp add: settled_def serial_def scan_eval session_eval)
  have 1: "size' (step posix_lite (Complete 0 ?f 0) ?t1) = 4"
    using lastOffset_monotone [THEN conjunct1, THEN mp, OF a] .
  have 2: "step posix_lite (Complete 0 ?g 0) ?t2 = watching ''test.log'' 10 2"
    using lastOffset_monotone [THEN conjunct2, THEN conjunct1, THEN mp, OF b, of posix_lite 0]
    by (simp add: watching_def)
  have 3: "size' (fresh ''test.log'' 10) \<le> size' (run posix_lite ?acts (fresh ''test.log'' 10))"
    using lastOffset_monotone [THEN conjunct2, THEN conjunct2, THEN mp, OF c] .
  from 1 2 3 show ?thesis by blast
qed

text \<open>
  The claim as stated fails when two scans overlap. With \<open>lastOffset = 2\<close>, a change
  notification finds size 4 and dispatches a scan to 4; before it completes, a second
  notification finds size 6 and dispatches a scan to 6, both from offset 2. The second scan
  completes first and sets \<open>lastOffset\<close> to 6; the first then sets it back to 4.
\<close>

theorem overlapping_scans_decrease_size:
  "size' (run posix_lite
      [Notify ''change'' None,
       Complete 0 (one_file ''test.log'' [120, 10, 97, 10]) 0,
       Notify ''change'' None,
       Complete 1 (one_file ''test.log'' [120, 10, 97, 10, 98, 10]) 0,
       Complete 1 (one_file ''test.log'' [120, 10, 97, 10, 98, 10]) 0] (watching ''test.log'' 10 2)) = 6 \<and>
   size' (run posix_lite
      [Notify ''change'' None,
       Complete 0 (one_file ''test.log'' [120, 10, 97, 10]) 0,
       Notify ''change'' None,
       Complete 1 (one_file ''test.log'' [120, 10, 97, 10, 98, 10]) 0,
       Complete 1 (one_file ''test.log'' [120, 10, 97, 10, 98, 10]) 0,
       Complete 0 (one_file ''test.log'' [120, 10, 97, 10, 98, 10]) 0] (watching ''test.log'' 10 2)) = 4"
  by (simp add: scan_eval session_eval)

text \<open>
  C6. When the size probe of a change notification fails, or the scan it started fails to
  open the file or fails in one of its reads, the session emits exactly one error event and
  no line event, and \<open>lastOffset\<close>, path, count and watcher are as before. A later change
  notification whose probe and scan succeed is handled as usual: its scan starts at the old
  \<open>lastOffset\<close>, its lines are emitted and \<open>lastOffset\<close> becomes the new size.
\<close>

theorem failed_scan_isolated:
  assumes "i < length (in_flight t)"
    and "(in_flight t ! i = Change_stat p \<and> fs_stat f p = Inl e) \<or>
         (in_flight t ! i = Scan p from newSize n \<and>
            (fs_open f p = Inl e \<or>
             (\<exists>rd q. fs_open f p = Inr rd \<and>
                Read_call q \<in> set (fst (readLastLines f junk p from newSize n)) \<and> rd q = Inl e)))"
    and "t' = step pm (Complete i f junk) t"
  shows "t' = t\<lparr>emitted := emitted t @ [Error e],
                 in_flight := take i (in_flight t) @ drop (Suc i) (in_flight t)\<rparr> \<and>
         (watcher t = Some w \<and> w_open w \<and> fs_stat g (w_path w) = Inr sz \<and> size' t < sz \<and>
          snd (readLastLines g j1 (path t) (size' t) sz (count t)) = Inr lines \<longrightarrow>
            run pm [Notify ''change'' fn, Complete (length (in_flight t')) g j0,
                    Complete (length (in_flight t')) g j1] t' =
              t'\<lparr>size' := sz, emitted := emitted t @ Error e # map Line lines\<rparr>)"
proof -
  have t': "t' = t\<lparr>emitted := emitted t @ [Error e],
                 in_flight := take i (in_flight t) @ drop (Suc i) (in_flight t)\<rparr>"
    using assms(2)
  proof
    assume "in_flight t ! i = Change_stat p \<and> fs_stat f p = Inl e"
    then show ?thesis
      using assms(1,3) by (simp add: step_def emit_def)
  next
    assume a: "in_flight t ! i = Scan p from newSize n \<and>
            (fs_open f p = Inl e \<or>
             (\<exists>rd q. fs_open f p = Inr rd \<and>
                Read_call q \<in> set (fst (readLastLines f junk p from newSize n)) \<and> rd q = Inl e))"
    then have "snd (readLastLines f junk p from newSize n) = Inl e"
      by (intro scan_fails) simp
    then show ?thesis
      using a assms(1,3) by (simp add: step_def emit_def processFileChange_cb_def)
  qed
  show ?thesis
  proof (intro conjI impI)
    show "t' = t\<lparr>emitted := emitted t @ [Error e],
                 in_flight := take i (in_flight t) @ drop (Suc i) (in_flight t)\<rparr>"
      by (rule t')
  next
    assume h: "watcher t = Some w \<and> w_open w \<and> fs_stat g (w_path w) = Inr sz \<and> size' t < sz \<and>
          snd (readLastLines g j1 (path t) (size' t) sz (count t)) = Inr lines"
    have "run pm [Notify ''change'' fn, Complete (length (in_flight t')) g j0,
                    Complete (length (in_flight t')) g j1] t' =
              t'\<lparr>size' := sz, emitted := emitted t' @ map Line lines\<rparr>"
      using h by (intro growth [of t' w g sz j1 lines pm fn j0]) (simp_all add: t')
    then show "run pm [Notify ''change'' fn, Complete (length (in_flight t')) g j0,
                    Complete (length (in_flight t')) g j1] t' =
              t'\<lparr>size' := sz, emitted := emitted t @ Error e # map Line lines\<rparr>"
      by (simp add: t')
  qed
qed

theorem failed_scan_isolated_witness:
  "step posix_lite (Complete 0 (failing_at 4 [120, 10, 97, 10, 98, 10]) 0)
       ((watching ''test.log'' 10 2)\<lparr>in_flight := [Scan ''test.log'' 2 6 10]\<rparr>) =
     (watching ''test.log'' 10 2)\<lparr>emitted := [Error EIO]\<rparr> \<and>
   run posix_lite [Notify ''change'' None,
        Complete 0 (one_file ''test.log'' [120, 10, 97, 10, 98, 10]) 0,
        Complete 0 (one_file ''test.log'' [120, 10, 97, 10, 98, 10]) 0]
       ((watching ''test.log'' 10 2)\<lparr>emitted := [Error EIO]\<rparr>) =
     (watching ''test.log'' 10 2)\<lparr>size' := 6, emitted := [Error EIO, Line [97], Line [98]]\<rparr>"
proof -
  let ?t = "(watching ''test.log'' 10 2)\<lparr>in_flight := [Scan ''test.log'' 2 6 10]\<rparr>"
  let ?f = "failing_at 4 [120, 10, 97, 10, 98, 10]"
  let ?g = "one_file ''test.log'' [120, 10, 97, 10, 98, 10]"
  have log: "fst (readLastLines ?f 0 ''test.log'' 2 6 10) =
      [Open_call ''test.log'', Read_call 5, Read_call 4]"
    by (simp add: scan_eval)
  have a: "0 < length (in_flight ?t)"
    by (simp add: watching_def)
  let ?rd = "\<lambda>i::int. if i = 4 then Inl EIO else file_read [120, 10, 97, 10, 98, 10] i"
  have "fs_open ?f ''test.log'' = Inr ?rd"
    by (simp add: failing_at_def)
  moreover have "Read_call 4 \<in> set (fst (readLastLines ?f 0 ''test.log'' 2 6 10))"
    by (simp add: log)
  moreover have "?rd 4 = Inl EIO"
    by simp
  ultimately have "\<exists>rd q. fs_open ?f ''test.log'' = Inr rd \<and>
                Read_call q \<in> set (fst (readLastLines ?f 0 ''test.log'' 2 6 10)) \<and> rd q = Inl EIO"
    by blast
  moreover have "in_flight ?t ! 0 = Scan ''test.log'' 2 6 10"
    by (simp add: watching_def)
  ultimately have b: "(in_flight ?t ! 0 = Change_stat ''test.log'' \<and> fs_stat ?f ''test.log'' = Inl EIO) \<or>
         (in_flight ?t ! 0 = Scan ''test.log'' 2 6 10 \<and>
            (fs_open ?f ''test.log'' = Inl EIO \<or>
             (\<exists>rd q. fs_open ?f ''test.log'' = Inr rd \<and>
                Read_call q \<in> set (fst (readLastLines ?f 0 ''test.log'' 2 6 10)) \<and> rd q = Inl EIO)))"
    by blast
  have c: "watcher ?t = Some \<lparr>w_path = ''test.log'', w_open = True\<rparr> \<and>
      w_open \<lparr>w_path = ''test.log'', w_open = True\<rparr> \<and>
      fs_stat ?g (w_path \<lparr>w_path = ''test.log'', w_open = True\<rparr>) = Inr 6 \<and> size' ?t < 6 \<and>
      snd (readLastLines ?g 0 (path ?t) (size' ?t) 6 (count ?t)) = Inr [[97], [98]]"
    by (simp add: watching_def scan_eval)
  note th = failed_scan_isolated [OF a b refl, where pm = posix_lite
        and w = "\<lparr>w_path = ''test.log'', w_open = True\<rparr>" and g = ?g and sz = 6 and ?j1.0 = 0
        and lines = "[[97], [98]]" and fn = None and ?j0.0 = 0]
  have s1: "step posix_lite (Complete 0 ?f 0) ?t = (watching ''test.log'' 10 2)\<lparr>emitted := [Error EIO]\<rparr>"
    using th [THEN conjunct1] by (simp add: watching_def)
  have s2: "run posix_lite [Notify ''change'' None,
        Complete (length (in_flight (step posix_lite (Complete 0 ?f 0) ?t))) ?g 0,
        Complete (length (in_flight (step posix_lite (Complete 0 ?f 0) ?t))) ?g 0]
       (step posix_lite (Complete 0 ?f 0) ?t) =
     (step posix_lite (Complete 0 ?f 0) ?t)
       \<lparr>size' := 6, emitted := emitted ?t @ Error EIO # map Line [[97], [98]]\<rparr>"
    using th [THEN conjunct2, THEN mp, OF c] .
  show ?thesis
    using s2 unfolding s1 by (simp add: s1 watching_def)
qed

lemma cb_watcher:
  "processFileChange_cb ns r (t\<lparr>watcher := W\<rparr>) = (processFileChange_cb ns r t)\<lparr>watcher := W\<rparr>"
  by (cases r; simp add: processFileChange_cb_def emit_lines; simp add: emit_def)

lemma complete_after_close:
  assumes "\<not> starting x"
  shows "complete x f junk (t\<lparr>watcher := W\<rparr>) = (complete x f junk t)\<lparr>watcher := W\<rparr>"
  using assms
  by (cases x) (simp_all add: cb_watcher emit_def processFileChange_def split: sum.splits)

lemma step_after_close:
  assumes "\<not> list_ex starting (in_flight t)"
  shows "step pm (Complete i f junk) (t\<lparr>watcher := W\<rparr>) = (step pm (Complete i f junk) t)\<lparr>watcher := W\<rparr>"
proof (cases "i < length (in_flight t)")
  case True
  let ?rest = "take i (in_flight t) @ drop (Suc i) (in_flight t)"
  have x: "\<not> starting (in_flight t ! i)"
    using assms True by (auto simp: list_ex_iff)
  have "step pm (Complete i f junk) (t\<lparr>watcher := W\<rparr>) =
      complete (in_flight t ! i) f junk ((t\<lparr>watcher := W\<rparr>)\<lparr>in_flight := ?rest\<rparr>)"
    using True by (simp add: step_def)
  also have "(t\<lparr>watcher := W\<rparr>)\<lparr>in_flight := ?rest\<rparr> = (t\<lparr>in_flight := ?rest\<rparr>)\<lparr>watcher := W\<rparr>"
    by (cases t) simp
  also have "complete (in_flight t ! i) f junk ((t\<lparr>in_flight := ?rest\<rparr>)\<lparr>watcher := W\<rparr>) =
      (complete (in_flight t ! i) f junk (t\<lparr>in_flight := ?rest\<rparr>))\<lparr>watcher := W\<rparr>"
    by (rule complete_after_close [OF x])
  also have "complete (in_flight t ! i) f junk (t\<lparr>in_flight := ?rest\<rparr>) = step pm (Complete i f junk) t"
    using True by (simp add: step_def)
  finally show ?thesis .
next
  case False
  then show ?thesis by (simp add: step_def)
qed

text \<open>
  C7 (as amended). After \<open>close()\<close> has closed the watcher of a session that is past its
  start, no notification is handled in any later state: none starts a size probe or a scan.
  A size probe or a scan that was in flight when \<open>close()\<close> was called still runs to
  completion and does what it would have done without \<open>close()\<close>: a scan emits its lines,
  a failing probe or scan emits its error, and a probe that finds the file grown dispatches a
  scan. When nothing was in flight, the session never changes again and so emits nothing.
\<close>

theorem closed_session_ignores_notifications:
  assumes "close t = Inr t'" "\<not> list_ex starting (in_flight t)"
  shows "step pm (Notify ev fn) (run pm acts t') = run pm acts t' \<and>
         (in_flight t = [] \<longrightarrow> run pm acts t' = t') \<and>
         step pm (Complete i f junk) t' = (step pm (Complete i f junk) t)\<lparr>watcher := watcher t'\<rparr> \<and>
         (i < length (in_flight t) \<and> in_flight t ! i = Scan p from newSize n \<and>
          snd (readLastLines f junk p from newSize n) = Inr lines \<longrightarrow>
            emitted (step pm (Complete i f junk) t') = emitted t' @ map Line lines) \<and>
         (i < length (in_flight t) \<and>
          (in_flight t ! i = Scan p from newSize n \<and>
             snd (readLastLines f junk p from newSize n) = Inl e \<or>
           in_flight t ! i = Change_stat p \<and> fs_stat f p = Inl e) \<longrightarrow>
            emitted (step pm (Complete i f junk) t') = emitted t' @ [Error e]) \<and>
         (i < length (in_flight t) \<and> in_flight t ! i = Change_stat p \<and>
          fs_stat f p = Inr sz \<and> size' t < sz \<longrightarrow>
            in_flight (step pm (Complete i f junk) t') =
              take i (in_flight t) @ drop (Suc i) (in_flight t) @
              [Scan (path t) (size' t) sz (count t)])"
proof -
  obtain w where w: "watcher t = Some w" "t' = t\<lparr>watcher := Some (w\<lparr>w_open := False\<rparr>)\<rparr>"
    using assms(1) by (auto simp: close_def split: option.splits)
  have "shut t'"
    using w assms(2) by (simp add: shut_def)
  then have "shut (run pm acts t')"
    by (rule shut_run)
  then have 1: "step pm (Notify ev fn) (run pm acts t') = run pm acts t'"
    by (rule shut_notify)
  have 2: "run pm acts t' = t'" if "in_flight t = []"
    using idle_run [of t' "w\<lparr>w_open := False\<rparr>" pm acts] w that by simp
  have 3: "step pm (Complete i f junk) t' = (step pm (Complete i f junk) t)\<lparr>watcher := watcher t'\<rparr>"
    using step_after_close [OF assms(2), of pm i f junk "Some (w\<lparr>w_open := False\<rparr>)"] w(2)
    by simp
  have 4: "emitted (step pm (Complete i f junk) t') = emitted t' @ map Line lines"
    if "i < length (in_flight t) \<and> in_flight t ! i = Scan p from newSize n \<and>
          snd (readLastLines f junk p from newSize n) = Inr lines"
    using that w(2)
    by (subst 3) (simp add: step_def processFileChange_cb_def emit_lines)
  have 5: "emitted (step pm (Complete i f junk) t') = emitted t' @ [Error e]"
    if "i < length (in_flight t) \<and>
          (in_flight t ! i = Scan p from newSize n \<and>
             snd (readLastLines f junk p from newSize n) = Inl e \<or>
           in_flight t ! i = Change_stat p \<and> fs_stat f p = Inl e)"
    using that w(2)
    by (subst 3) (auto simp: step_def processFileChange_cb_def emit_def)
  have 6: "in_flight (step pm (Complete i f junk) t') =
              take i (in_flight t) @ drop (Suc i) (in_flight t) @
              [Scan (path t) (size' t) sz (count t)]"
    if "i < length (in_flight t) \<and> in_flight t ! i = Change_stat p \<and>
          fs_stat f p = Inr sz \<and> size' t < sz"
    using that
    by (subst 3) (simp add: step_def processFileChange_def)
  from 1 2 3 4 5 6 show ?thesis
    by blast
qed

theorem closed_session_ignores_notifications_witness:
  "step posix_lite (Notify ''change'' None)
     (run posix_lite [Notify ''change'' None, Complete 0 (one_file ''test.log'' [97, 10, 98, 10]) 0]
        ((watching ''test.log'' 10 4)\<lparr>watcher := Some \<lparr>w_path = ''test.log'', w_open = False\<rparr>\<rparr>)) =
   run posix_lite [Notify ''change'' None, Complete 0 (one_file ''test.log'' [97, 10, 98, 10]) 0]
        ((watching ''test.log'' 10 4)\<lparr>watcher := Some \<lparr>w_path = ''test.log'', w_open = False\<rparr>\<rparr>) \<and>
   run posix_lite [Notify ''change'' None, Complete 0 (one_file ''test.log'' [97, 10, 98, 10]) 0]
        ((watching ''test.log'' 10 4)\<lparr>watcher := Some \<lparr>w_path = ''test.log'', w_open = False\<rparr>\<rparr>) =
   (watching ''test.log'' 10 4)\<lparr>watcher := Some \<lparr>w_path = ''test.log'', w_open = False\<rparr>\<rparr> \<and>
   step posix_lite (Notify ''change'' None)
     (run posix_lite [Complete 0 (one_file ''test.log'' [120, 10, 97, 10, 98, 10]) 0]
        ((watching ''test.log'' 10 2)
           \<lparr>watcher := Some \<lparr>w_path = ''test.log'', w_open = False\<rparr>,
            in_flight := [Scan ''test.log'' 2 6 10]\<rparr>)) =
   run posix_lite [Complete 0 (one_file ''test.log'' [120, 10, 97, 10, 98, 10]) 0]
        ((watching ''test.log'' 10 2)
           \<lparr>watcher := Some \<lparr>w_path = ''test.log'', w_open = False\<rparr>,
            in_flight := [Scan ''test.log'' 2 6 10]\<rparr>) \<and>
   emitted (step posix_lite (Complete 0 (one_file ''test.log'' [120, 10, 97, 10, 98, 10]) 0)
        ((watching ''test.log'' 10 2)
           \<lparr>watcher := Some \<lparr>w_path = ''test.log'', w_open = False\<rparr>,
            in_flight := [Scan ''test.log'' 2 6 10]\<rparr>)) = [Line [97], Line [98]] \<and>
   emitted (step posix_lite (Complete 0 (one_file ''other.log'' []) 0)
        ((watching ''test.log'' 10 2)
           \<lparr>watcher := Some \<lparr>w_path = ''test.log'', w_open = False\<rparr>,
            in_flight := [Change_stat ''test.log'']\<rparr>)) = [Error ENOENT] \<and>
   in_flight (step posix_lite (Complete 0 (one_file ''test.log'' [120, 10, 97, 10, 98, 10]) 0)
        ((watching ''test.log'' 10 2)
           \<lparr>watcher := Some \<lparr>w_path = ''test.log'', w_open = False\<rparr>,
            in_flight := [Change_stat ''test.log'']\<rparr>)) = [Scan ''test.log'' 2 6 10]"
proof -
  let ?w' = "Some \<lparr>w_path = ''test.log'', w_open = False\<rparr>"
  let ?g = "one_file ''test.log'' [120, 10, 97, 10, 98, 10]"
  let ?s = "(watching ''test.log'' 10 2)\<lparr>in_flight := [Scan ''test.log'' 2 6 10]\<rparr>"
  let ?c = "(watching ''test.log'' 10 2)\<lparr>in_flight := [Change_stat ''test.log'']\<rparr>"
  have a: "close (watching ''test.log'' 10 4) = Inr ((watching ''test.log'' 10 4)\<lparr>watcher := ?w'\<rparr>)"
    by (simp add: close_def watching_def)
  have b: "\<not> list_ex starting (in_flight (watching ''test.log'' 10 4))"
    by (simp add: watching_def)
  have c: "in_flight (watching ''test.log'' 10 4) = []"
    by (simp add: watching_def)
  note idle = closed_session_ignores_notifications [OF a b, of posix_lite "''change''" None
        "[Notify ''change'' None, Complete 0 (one_file ''test.log'' [97, 10, 98, 10]) 0]"]
  have as: "close ?s = Inr (?s\<lparr>watcher := ?w'\<rparr>)"
    by (simp add: close_def watching_def)
  have bs: "\<not> list_ex starting (in_flight ?s)"
    by (simp add: watching_def)
  have hs: "0 < length (in_flight ?s) \<and> in_flight ?s ! 0 = Scan ''test.log'' 2 6 10 \<and>
      snd (readLastLines ?g 0 ''test.log'' 2 6 10) = Inr [[97], [98]]"
    by (simp add: watching_def scan_eval)
  note scan = closed_session_ignores_notifications [OF as bs, where pm = posix_lite
      and ev = "''change''" and fn = None and acts = "[Complete 0 ?g 0]" and i = 0 and f = ?g
      and junk = 0 and p = "''test.log''" and ?from = 2 and newSize = 6 and n = 10
      and lines = "[[97], [98]]"]
  have ac: "close ?c = Inr (?c\<lparr>watcher := ?w'\<rparr>)"
    by (simp add: close_def watching_def)
  have bc: "\<not> list_ex starting (in_flight ?c)"
    by (simp add: watching_def)
  have he: "0 < length (in_flight ?c) \<and>
      (in_flight ?c ! 0 = Scan ''test.log'' 0 0 0 \<and>
         snd (readLastLines (one_file ''other.log'' []) 0 ''test.log'' 0 0 0) = Inl ENOENT \<or>
       in_flight ?c ! 0 = Change_stat ''test.log'' \<and>
         fs_stat (one_file ''other.log'' []) ''test.log'' = Inl ENOENT)"
    by (simp add: watching_def one_file_def disk_def)
  have hd: "0 < length (in_flight ?c) \<and> in_flight ?c ! 0 = Change_stat ''test.log'' \<and>
      fs_stat ?g ''test.log'' = Inr 6 \<and> size' ?c < 6"
    by (simp add: watching_def one_file_def disk_def)
  note err = closed_session_ignores_notifications [OF ac bc, where pm = posix_lite and i = 0
      and f = "one_file ''other.log'' []" and junk = 0 and p = "''test.log''" and ?from = 0
      and newSize = 0 and n = 0 and e = ENOENT]
  note disp = closed_session_ignores_notifications [OF ac bc, where pm = posix_lite and i = 0
      and f = ?g and junk = 0 and p = "''test.log''" and sz = 6]
  have 1: "step posix_lite (Notify ''change'' None)
      (run posix_lite [Complete 0 ?g 0] (?s\<lparr>watcher := ?w'\<rparr>)) =
      run posix_lite [Complete 0 ?g 0] (?s\<lparr>watcher := ?w'\<rparr>)"
    using scan [THEN conjunct1] .
  have 2: "emitted (step posix_lite (Complete 0 ?g 0) (?s\<lparr>watcher := ?w'\<rparr>)) =
      emitted (?s\<lparr>watcher := ?w'\<rparr>) @ map Line [[97], [98]]"
    using scan [THEN conjunct2, THEN conjunct2, THEN conjunct2, THEN conjunct1, THEN mp, OF hs] .
  have 3: "emitted (step posix_lite (Complete 0 (one_file ''other.log'' []) 0) (?c\<lparr>watcher := ?w'\<rparr>)) =
      emitted (?c\<lparr>watcher := ?w'\<rparr>) @ [Error ENOENT]"
    using err [THEN conjunct2, THEN conjunct2, THEN conjunct2, THEN conjunct2, THEN conjunct1,
        THEN mp, OF he] .
  have 4: "in_flight (step posix_lite (Complete 0 ?g 0) (?c\<lparr>watcher := ?w'\<rparr>)) =
      take 0 (in_flight ?c) @ drop (Suc 0) (in_flight ?c) @ [Scan (path ?c) (size' ?c) 6 (count ?c)]"
    using disp [THEN conjunct2, THEN conjunct2, THEN conjunct2, THEN conjunct2, THEN conjunct2,
        THEN mp, OF hd] .
  have s: "?s\<lparr>watcher := ?w'\<rparr> = (watching ''test.log'' 10 2)
           \<lparr>watcher := ?w', in_flight := [Scan ''test.log'' 2 6 10]\<rparr>"
    "?c\<lparr>watcher := ?w'\<rparr> = (watching ''test.log'' 10 2)
           \<lparr>watcher := ?w', in_flight := [Change_stat ''test.log'']\<rparr>"
    by (simp_all add: watching_def)
  have e2: "emitted (step posix_lite (Complete 0 ?g 0) (?s\<lparr>watcher := ?w'\<rparr>)) = [Line [97], Line [98]]"
    using 2 by (simp add: watching_def)
  have e3: "emitted (step posix_lite (Complete 0 (one_file ''other.log'' []) 0) (?c\<lparr>watcher := ?w'\<rparr>)) =
      [Error ENOENT]"
    using 3 by (simp add: watching_def)
  have e4: "in_flight (step posix_lite (Complete 0 ?g 0) (?c\<lparr>watcher := ?w'\<rparr>)) =
      [Scan ''test.log'' 2 6 10]"
    using 4 by (simp add: watching_def)
  show ?thesis
    using idle [THEN conjunct1] idle [THEN conjunct2, THEN conjunct1, THEN mp, OF c]
      1 e2 e3 e4
    unfolding s by blast
qed

text \<open>
  The claim as stated fails: \<open>close()\<close> called while the initial scan of \<open>a\\nb\\n\<close> is
  in flight closes the watcher, and the scan's callback still emits the line \<open>b\<close>
  afterwards.
\<close>

theorem events_after_close:
  "watcher (run posix_lite
      [Complete 0 (one_file ''test.log'' [97, 10, 98, 10]) 0,
       Complete 0 (one_file ''test.log'' [97, 10, 98, 10]) 0,
       Close] (fresh ''test.log'' 10)) = Some \<lparr>w_path = ''test.log'', w_open = False\<rparr> \<and>
   emitted (run posix_lite
      [Complete 0 (one_file ''test.log'' [97, 10, 98, 10]) 0,
       Complete 0 (one_file ''test.log'' [97, 10, 98, 10]) 0,
       Close] (fresh ''test.log'' 10)) = [] \<and>
   emitted (run posix_lite
      [Complete 0 (one_file ''test.log'' [97, 10, 98, 10]) 0,
       Complete 0 (one_file ''test.log'' [97, 10, 98, 10]) 0,
       Close,
       Complete 0 (one_file ''test.log'' [97, 10, 98, 10]) 0] (fresh ''test.log'' 10)) = [Line [98]]"
  by (simp add: scan_eval session_eval)

text \<open>
  C8. The claim: the descriptor is closed on every path out of the read loop. When the read
  at position 2 fails, the scan calls back with the error after \<open>fs.open\<close> and two
  \<open>fs.read\<close> calls, and \<open>fs.close\<close> is never called.
\<close>

theorem read_error_leaves_descriptor_open:
  "readLastLines (failing_at 2 [97, 10, 98, 10]) 0 ''test.log'' 0 4 10 =
     ([Open_call ''test.log'', Read_call 3, Read_call 2], Inl EIO) \<and>
   Close_call \<notin> set (fst (readLastLines (failing_at 2 [97, 10, 98, 10]) 0 ''test.log'' 0 4 10))"
  by (simp add: scan_eval)



lemma reads_lowest: "lo < hi \<Longrightarrow> Read_call (int lo) \<in> set (reads lo hi)"
  by (simp add: reads_def)

text \<open>
  C10 (as amended). A scan with \<open>from > 0\<close> that does not reach its line limit inside
  \<open>[from, to)\<close> reads every byte from \<open>to - 1\<close> down to \<open>from - 1\<close>, one byte below the
  range. When the range holds \<open>k >= 1\<close> newlines, \<open>n >= 2\<close> and \<open>k <= n\<close>, the result depends
  on that byte: two files with the same bytes in \<open>[from, to)\<close> give all \<open>k\<close> lines when the
  byte at \<open>from - 1\<close> is a newline, and the lines without the first (the one that begins at
  \<open>from\<close>) when it is another byte. A range without a newline gives the same (empty) result
  either way.
\<close>

theorem byte_below_range_decides_first_line:
  assumes "\<forall>l\<in>set ls. 10 \<notin> set l" "10 \<notin> set T" "x \<noteq> 10"
    and "from = Suc (length P1)" "length P2 = length P1"
    and "to = from + length (terminated ls @ T)"
  shows "(ls \<noteq> [] \<and> 2 \<le> n \<and> int (length ls) \<le> n \<longrightarrow>
           readLastLines (disk [p \<mapsto> P1 @ 10 # terminated ls @ T @ R1]) junk p from to n =
             (Open_call p # reads (from - 1) to @ [Close_call], Inr (map decode ls)) \<and>
           readLastLines (disk [p \<mapsto> P2 @ x # terminated ls @ T @ R2]) junk p from to n =
             (Open_call p # reads (from - 1) to @ [Close_call], Inr (map decode (tl ls))) \<and>
           map decode ls \<noteq> map decode (tl ls)) \<and>
         (ls = [] \<and> 1 \<le> n \<longrightarrow>
           readLastLines (disk [p \<mapsto> P1 @ c # T @ R1]) junk p from to n =
             (Open_call p # reads (from - 1) to @ [Close_call], Inr [])) \<and>
         Read_call (int from - 1) \<in> set (reads (from - 1) to)"
proof (intro conjI impI)
  assume h: "ls \<noteq> [] \<and> 2 \<le> n \<and> int (length ls) \<le> n"
  show "readLastLines (disk [p \<mapsto> P1 @ 10 # terminated ls @ T @ R1]) junk p from to n =
             (Open_call p # reads (from - 1) to @ [Close_call], Inr (map decode ls))"
    using scan_after_newline [of ls T n P1 R1 junk] assms h
    by (simp add: readLastLines_disk add_ac)
  show "readLastLines (disk [p \<mapsto> P2 @ x # terminated ls @ T @ R2]) junk p from to n =
             (Open_call p # reads (from - 1) to @ [Close_call], Inr (map decode (tl ls)))"
    using scan_after_other [of ls T x n P2 R2 junk] assms h
    by (simp add: readLastLines_disk add_ac)
  have "length (map decode ls) \<noteq> length (map decode (tl ls))"
    using h by (cases ls) simp_all
  then show "map decode ls \<noteq> map decode (tl ls)"
    by metis
next
  assume "ls = [] \<and> 1 \<le> n"
  then show "readLastLines (disk [p \<mapsto> P1 @ c # T @ R1]) junk p from to n =
             (Open_call p # reads (from - 1) to @ [Close_call], Inr [])"
    using scan_no_newline [of T n P1 c R1 junk] assms
    by (simp add: readLastLines_disk add_ac)
next
  show "Read_call (int from - 1) \<in> set (reads (from - 1) to)"
    using reads_lowest [of "length P1" to] assms(4,6) by simp
qed

theorem byte_below_range_decides_first_line_witness:
  "readLastLines (disk [''test.log'' \<mapsto> [120, 10, 97, 10, 98, 10]]) 0 ''test.log'' 2 6 10 =
     ([Open_call ''test.log'', Read_call 5, Read_call 4, Read_call 3, Read_call 2, Read_call 1,
       Close_call], Inr [[97], [98]]) \<and>
   readLastLines (disk [''test.log'' \<mapsto> [121, 122, 97, 10, 98, 10]]) 0 ''test.log'' 2 6 10 =
     ([Open_call ''test.log'', Read_call 5, Read_call 4, Read_call 3, Read_call 2, Read_call 1,
       Close_call], Inr [[98]]) \<and>
   readLastLines (disk [''test.log'' \<mapsto> [120, 10, 97, 98]]) 0 ''test.log'' 2 4 10 =
     ([Open_call ''test.log'', Read_call 3, Read_call 2, Read_call 1, Close_call], Inr [])"
proof -
  have r: "reads (Suc 0) 6 = [Read_call 5, Read_call 4, Read_call 3, Read_call 2, Read_call 1]"
    "reads (Suc 0) 4 = [Read_call 3, Read_call 2, Read_call 1]"
    by (simp_all add: reads_def upt_rec)
  have a: "\<forall>l\<in>set [[97], [98 :: byte]]. 10 \<notin> set l" "10 \<notin> set ([] :: byte list)"
    "(122 :: byte) \<noteq> 10" "(2 :: nat) = Suc (length [120 :: byte])"
    "length [121 :: byte] = length [120 :: byte]"
    "(6 :: nat) = 2 + length (terminated [[97], [98 :: byte]] @ [])"
    by simp_all
  have b: "\<forall>l\<in>set ([] :: byte list list). 10 \<notin> set l" "10 \<notin> set [97, 98 :: byte]"
    "(4 :: nat) = 2 + length (terminated [] @ [97, 98 :: byte])"
    by simp_all
  have c: "[[97], [98 :: byte]] \<noteq> [] \<and> (2 :: int) \<le> 10 \<and> int (length [[97], [98 :: byte]]) \<le> 10"
    "([] :: byte list list) = [] \<and> (1 :: int) \<le> 10"
    by simp_all
  note t1 = byte_below_range_decides_first_line [OF a, THEN conjunct1, THEN mp, OF c(1),
      of "''test.log''" "[]" 0 "[]"]
  note t2 = byte_below_range_decides_first_line [OF b(1,2) a(3,4,5) b(3), THEN conjunct2,
      THEN conjunct1, THEN mp, OF c(2), of "''test.log''" 10 "[]" 0]
  from t1 t2 show ?thesis
    by (simp add: r decode_def toString_def)
qed

text \<open>
  The claim as stated, for every scan with \<open>from > 0\<close>, fails when the line limit ends the
  loop first: with \<open>from = 1\<close>, \<open>to = 4\<close> and \<open>n = 2\<close> on \<open>x\\n\\n\\n\<close> the scan reads
  offsets 3, 2 and 1 only, and the file that has a newline at offset 0 gives the same result.
\<close>

theorem byte_below_range_not_read:
  "readLastLines (one_file ''test.log'' [120, 10, 10, 10]) 0 ''test.log'' 1 4 2 =
     ([Open_call ''test.log'', Read_call 3, Read_call 2, Read_call 1, Close_call], Inr [[], []]) \<and>
   readLastLines (one_file ''test.log'' [10, 10, 10, 10]) 0 ''test.log'' 1 4 2 =
     ([Open_call ''test.log'', Read_call 3, Read_call 2, Read_call 1, Close_call], Inr [[], []])"
  by (simp add: scan_eval)


end
